theory Spec2Isabelle
  imports Main
begin

section \<open>Text, word characters and the rename catalogue\<close>

text \<open>
  The \<open>migrate\<close> command of \<^verbatim>\<open>src/gdsfactory/cli.py\<close> works on Python \<open>str\<close> values,
  which are sequences of Unicode code points. A text is therefore a list of code points;
  \<open>ascii\<close> turns a literal into one.
\<close>

type_synonym str = "nat list"

definition ascii :: "string \<Rightarrow> str" where
  "ascii s = map of_char s"

text \<open>
  The regular-expression class \<^verbatim>\<open>\w\<close> on \<open>str\<close> patterns: the ASCII letters, digits
  and the underscore, and beyond ASCII whatever the Unicode database calls alphanumeric.
  That table is not part of the repository: it is the parameter \<open>ualnum\<close>, consulted
  only for code points from 128 on.
\<close>

definition is_word :: "(nat \<Rightarrow> bool) \<Rightarrow> nat \<Rightarrow> bool" where
  "is_word ualnum c =
     (if c < 128
      then (48 \<le> c \<and> c \<le> 57) \<or> (65 \<le> c \<and> c \<le> 90) \<or> c = 95 \<or> (97 \<le> c \<and> c \<le> 122)
      else ualnum c)"

text \<open>A position outside the text (\<open>None\<close>) counts as a non-word character.\<close>

fun word_at :: "(nat \<Rightarrow> bool) \<Rightarrow> nat option \<Rightarrow> bool" where
  "word_at ualnum None = False"
| "word_at ualnum (Some c) = is_word ualnum c"

text \<open>
  \<^verbatim>\<open>\b\<close> holds between two neighbouring positions exactly when one of them is a word
  character and the other is not.
\<close>

definition boundary :: "(nat \<Rightarrow> bool) \<Rightarrow> nat option \<Rightarrow> nat option \<Rightarrow> bool" where
  "boundary ualnum before after = (word_at ualnum before \<noteq> word_at ualnum after)"

text \<open>
  The set literal \<open>to_be_replaced\<close> (lines 158-174), in the order it is written. Python
  iterates a set in an order of its own, so the patterns below take the enumeration of the
  names as an argument.
\<close>

definition to_be_replaced :: "str list" where
  "to_be_replaced = map ascii
     [''center'', ''mirror'', ''move'', ''movex'', ''movey'', ''rotate'', ''size_info'',
      ''x'', ''xmin'', ''xmax'', ''xsize'', ''y'', ''ymin'', ''ymax'', ''ysize'']"

section \<open>Substitution with \<^verbatim>\<open>\b(a1|a2|...)\b\<close> and replacement \<^verbatim>\<open>d\1\<close>\<close>

fun head :: "str \<Rightarrow> nat option" where
  "head [] = None"
| "head (c # cs) = Some c"

fun strip_prefix :: "str \<Rightarrow> str \<Rightarrow> str option" where
  "strip_prefix [] s = Some s"
| "strip_prefix (a # as) [] = None"
| "strip_prefix (a # as) (c # cs) = (if a = c then strip_prefix as cs else None)"

text \<open>
  The group \<^verbatim>\<open>(a1|a2|...)\<close> followed by the closing \<^verbatim>\<open>\b\<close>: the alternatives are tried
  from left to right, and one that matches the text but is not followed by a boundary
  is given up for the next one. The result is the matched alternative and the text
  after it. Every alternative built from the catalogue is a non-empty literal; an empty
  alternative is never taken.
\<close>

fun match_alts :: "(nat \<Rightarrow> bool) \<Rightarrow> str list \<Rightarrow> str \<Rightarrow> (str \<times> str) option" where
  "match_alts ualnum [] s = None"
| "match_alts ualnum (a # as) s =
     (case strip_prefix a s of
        None \<Rightarrow> match_alts ualnum as s
      | Some rest \<Rightarrow>
          if a \<noteq> [] \<and> boundary ualnum (Some (last a)) (head rest)
          then Some (a, rest)
          else match_alts ualnum as s)"

text \<open>The whole pattern at one position: the opening \<^verbatim>\<open>\b\<close>, then the group.\<close>

definition match_here ::
  "(nat \<Rightarrow> bool) \<Rightarrow> str list \<Rightarrow> nat option \<Rightarrow> str \<Rightarrow> (str \<times> str) option" where
  "match_here ualnum alts prev s =
     (if boundary ualnum prev (head s) then match_alts ualnum alts s else None)"

lemma strip_prefix_Some: "strip_prefix a s = Some rest \<Longrightarrow> s = a @ rest"
  by (induction a s rule: strip_prefix.induct) (auto split: if_splits)

lemma strip_prefix_append: "strip_prefix a (a @ rest) = Some rest"
  by (induction a) auto

lemma match_alts_Some:
  "match_alts ualnum alts s = Some (m, rest) \<Longrightarrow>
     s = m @ rest \<and> m \<noteq> [] \<and> m \<in> set alts \<and> boundary ualnum (Some (last m)) (head rest)"
  by (induction alts) (auto split: option.splits if_splits dest: strip_prefix_Some)

lemma match_here_Some:
  "match_here ualnum alts prev s = Some (m, rest) \<Longrightarrow>
     s = m @ rest \<and> m \<noteq> [] \<and> m \<in> set alts \<and> boundary ualnum prev (head s)
     \<and> boundary ualnum (Some (last m)) (head rest)"
  by (auto simp: match_here_def split: if_splits dest: match_alts_Some)

text \<open>The marker \<open>d\<close> of the replacement \<^verbatim>\<open>d\1\<close>.\<close>

definition marker :: nat where
  "marker = 100"

text \<open>
  \<open>pattern.sub(replacement, text)\<close>: the text is scanned from left to right; at a position
  where the pattern matches, the marker and the matched text are emitted and the scan
  goes on behind the match; elsewhere the character is copied. \<open>prev\<close> is the character
  before the current position.
\<close>

function sub :: "(nat \<Rightarrow> bool) \<Rightarrow> str list \<Rightarrow> nat option \<Rightarrow> str \<Rightarrow> str" where
  "sub ualnum alts prev [] = []"
| "sub ualnum alts prev (c # cs) =
     (case match_here ualnum alts prev (c # cs) of
        None \<Rightarrow> c # sub ualnum alts (Some c) cs
      | Some (m, rest) \<Rightarrow> marker # m @ sub ualnum alts (Some (last m)) rest)"
  by pat_completeness auto
termination
proof (relation "measure (\<lambda>(ualnum, alts, prev, s). length s)")
  fix ualnum :: "nat \<Rightarrow> bool" and alts prev c cs x2 m rest
  assume "match_here ualnum alts prev (c # cs) = Some x2" and "(m, rest) = x2"
  then have "c # cs = m @ rest \<and> m \<noteq> []"
    by (auto dest: match_here_Some)
  then have "length rest < length (c # cs)"
    by (metis length_append length_greater_0_conv less_add_same_cancel2)
  then show "((ualnum, alts, Some (last m), rest), (ualnum, alts, prev, c # cs))
      \<in> measure (\<lambda>(ualnum, alts, prev, s). length s)"
    by simp
qed simp_all

text \<open>
  Lines 181-185 and the expression of lines 198, 234, 257:
  \<open>pattern1\<close> has the alternatives \<^verbatim>\<open>d\.\<close> + name, \<open>pattern2\<close> the names themselves, and
  \<open>new_content = pattern2.sub(replacement, pattern1.sub(replacement, content))\<close>.
\<close>

definition pattern1 :: "str list \<Rightarrow> str list" where
  "pattern1 names = map (\<lambda>r. ascii ''d.'' @ r) names"

definition pattern2 :: "str list \<Rightarrow> str list" where
  "pattern2 names = names"

definition rewrite_with :: "(nat \<Rightarrow> bool) \<Rightarrow> str list \<Rightarrow> str \<Rightarrow> str" where
  "rewrite_with ualnum names content =
     sub ualnum (pattern2 names) None (sub ualnum (pattern1 names) None content)"

definition rewrite :: "(nat \<Rightarrow> bool) \<Rightarrow> str \<Rightarrow> str" where
  "rewrite ualnum content = rewrite_with ualnum to_be_replaced content"

section \<open>Paths, the file system and the console\<close>

text \<open>
  A \<open>pathlib.Path\<close>: whether it is anchored at the root, and its components.
\<close>

datatype path = Path (absolute: bool) (parts: "str list")

definition joinpath :: "path \<Rightarrow> path \<Rightarrow> path" where
  \<comment> \<open>\<open>p / q\<close>: an absolute right operand replaces the left one.\<close>
  "joinpath p q = (if absolute q then q else Path (absolute p) (parts p @ parts q))"

definition joinname :: "path \<Rightarrow> str \<Rightarrow> path" where
  \<comment> \<open>\<open>p / s\<close> for a name \<open>s\<close>; the empty name adds nothing.\<close>
  "joinname p s = (if s = [] then p else Path (absolute p) (parts p @ [s]))"

definition name :: "path \<Rightarrow> str" where
  "name p = (case parts p of [] \<Rightarrow> [] | _ \<Rightarrow> last (parts p))"

definition parent :: "path \<Rightarrow> path" where
  "parent p = Path (absolute p) (butlast (parts p))"

fun rfind_from :: "nat \<Rightarrow> nat \<Rightarrow> str \<Rightarrow> nat option \<Rightarrow> nat option" where
  "rfind_from c i [] found = found"
| "rfind_from c i (x # xs) found = rfind_from c (Suc i) xs (if x = c then Some i else found)"

definition suffix :: "path \<Rightarrow> str" where
  \<comment> \<open>\<open>i = name.rfind('.')\<close>; the suffix is \<open>name[i:]\<close> when \<open>0 < i < len(name) - 1\<close>.\<close>
  "suffix p =
     (case rfind_from 46 0 (name p) None of
        None \<Rightarrow> []
      | Some i \<Rightarrow> if 0 < i \<and> Suc i < length (name p) then drop i (name p) else [])"

fun join :: "str \<Rightarrow> str list \<Rightarrow> str" where
  "join sep [] = []"
| "join sep [x] = x"
| "join sep (x # y # ys) = x @ sep @ join sep (y # ys)"

definition str_path :: "path \<Rightarrow> str" where
  "str_path p =
     (if absolute p then ascii ''/'' @ join (ascii ''/'') (parts p)
      else if parts p = [] then ascii ''.'' else join (ascii ''/'') (parts p))"

definition relative_to :: "path \<Rightarrow> path \<Rightarrow> path option" where
  \<comment> \<open>\<open>p.relative_to(base)\<close>; \<open>None\<close> stands for its \<open>ValueError\<close>.\<close>
  "relative_to p base =
     (if absolute p = absolute base \<and> take (length (parts base)) (parts p) = parts base
      then Some (Path False (drop (length (parts base)) (parts p))) else None)"

fun inits :: "'a list \<Rightarrow> 'a list list" where
  "inits [] = [[]]"
| "inits (x # xs) = [] # map ((#) x) (inits xs)"

definition ancestors :: "path \<Rightarrow> path list" where
  \<comment> \<open>every directory above the path, from the top down, and the path itself at the end\<close>
  "ancestors p = map (Path (absolute p)) (inits (parts p))"

definition above :: "path \<Rightarrow> path list" where
  \<comment> \<open>the directories above the path, without the path itself\<close>
  "above p = butlast (ancestors p)"

text \<open>
  What \<open>open(..., encoding="utf-8").read()\<close> can find in a file: text, or bytes that
  are not valid UTF-8.
\<close>

datatype fdata = Utf8 str | Undecodable

text \<open>
  The world the command acts on: the directories and files that exist (under their
  resolved paths), and, to observe the effects, the list of writes performed and the list
  of texts that \<open>pprint\<close> has printed, both in order.
\<close>

record world =
  dirs :: "path set"
  files :: "path \<rightharpoonup> fdata"
  written :: "(path \<times> str) list"
  console :: "str list"

text \<open>
  What the command uses and the repository does not contain: the Unicode table behind
  \<^verbatim>\<open>\w\<close>, \<open>Path.resolve\<close> (which knows the working directory and the links),
  \<open>difflib.unified_diff\<close>, the sequence of paths that \<open>rglob("*.py")\<close> yields for a
  directory during the run, and the markup parser of \<open>rich.print\<close>, which is what
  \<open>pprint\<close> is (line 10): \<open>rich_raises\<close> tells the texts on which it raises
  \<open>MarkupError\<close>, as it does on a closing tag such as \<^verbatim>\<open>[/a]\<close> that closes nothing.
\<close>

record env =
  unicode_alnum :: "nat \<Rightarrow> bool"
  resolve :: "path \<Rightarrow> path"
  unified_diff :: "str list \<Rightarrow> str list \<Rightarrow> str \<Rightarrow> str \<Rightarrow> str list"
  rglob :: "path \<Rightarrow> path list"
  rich_raises :: "str \<Rightarrow> bool"

datatype error =
    ValueError
  | FileNotFoundError path
  | IsADirectoryError path
  | NotADirectoryError path
  | FileExistsError path
  | UnicodeDecodeError path
  | NotRelativeError path path
  | MarkupError str

definition file_above :: "world \<Rightarrow> path \<Rightarrow> bool" where
  \<comment> \<open>a regular file stands where the path needs a directory\<close>
  "file_above w q = list_ex (\<lambda>a. files w a \<noteq> None) (above q)"

definition is_dir :: "env \<Rightarrow> world \<Rightarrow> path \<Rightarrow> bool" where
  "is_dir e w p = (resolve e p \<in> dirs w)"

definition read_text :: "env \<Rightarrow> world \<Rightarrow> path \<Rightarrow> error + str" where
  \<comment> \<open>\<open>with open(p, encoding="utf-8") as file: content = file.read()\<close>\<close>
  "read_text e w p =
     (if file_above w (resolve e p) then Inl (NotADirectoryError p)
      else if resolve e p \<in> dirs w then Inl (IsADirectoryError p)
      else case files w (resolve e p) of
             None \<Rightarrow> Inl (FileNotFoundError p)
           | Some Undecodable \<Rightarrow> Inl (UnicodeDecodeError p)
           | Some (Utf8 s) \<Rightarrow> Inr s)"

definition write_text :: "env \<Rightarrow> world \<Rightarrow> path \<Rightarrow> str \<Rightarrow> error + world" where
  \<comment> \<open>\<open>with open(p, "w", encoding="utf-8") as file: file.write(s)\<close>\<close>
  "write_text e w p s =
     (if file_above w (resolve e p) then Inl (NotADirectoryError p)
      else if resolve e p \<in> dirs w then Inl (IsADirectoryError p)
      else if parent (resolve e p) \<notin> dirs w then Inl (FileNotFoundError p)
      else Inr (w\<lparr>files := (files w)(resolve e p \<mapsto> Utf8 s), written := written w @ [(p, s)]\<rparr>))"

definition mkdir_parents :: "env \<Rightarrow> world \<Rightarrow> path \<Rightarrow> error + world" where
  \<comment> \<open>\<open>p.mkdir(parents=True, exist_ok=True)\<close>: \<open>NotADirectoryError\<close> where a file stands
      above the path, \<open>FileExistsError\<close> where the path itself is a file.\<close>
  "mkdir_parents e w p =
     (if file_above w (resolve e p) then Inl (NotADirectoryError p)
      else if files w (resolve e p) \<noteq> None then Inl (FileExistsError p)
      else Inr (w\<lparr>dirs := dirs w \<union> set (ancestors (resolve e p))\<rparr>))"

definition pprint :: "env \<Rightarrow> str \<Rightarrow> world \<Rightarrow> error + world" where
  \<comment> \<open>\<open>rich.print\<close>: the text is parsed as markup before anything is printed.\<close>
  "pprint e s w =
     (if rich_raises e s then Inl (MarkupError s)
      else Inr (w\<lparr>console := console w @ [s]\<rparr>))"

text \<open>
  \<open>str.splitlines()\<close>: a line ends at \<^verbatim>\<open>\n\<close>, \<^verbatim>\<open>\r\<close>, \<^verbatim>\<open>\r\n\<close>, \<^verbatim>\<open>\v\<close>, \<^verbatim>\<open>\f\<close>, the
  separators \<^verbatim>\<open>\x1c\<close> to \<^verbatim>\<open>\x1e\<close>, \<^verbatim>\<open>\x85\<close>, or the code points 8232 and 8233; the
  line ends are dropped and a final line end opens no further line. \<open>line\<close> is the
  current line, reversed.
\<close>

definition is_linebreak :: "nat \<Rightarrow> bool" where
  "is_linebreak c = (c \<in> {10, 11, 12, 13, 28, 29, 30, 133, 8232, 8233})"

fun splitlines_from :: "str \<Rightarrow> str \<Rightarrow> str list" where
  "splitlines_from line [] = (if line = [] then [] else [rev line])"
| "splitlines_from line [c] =
     (if is_linebreak c then [rev line] else [rev (c # line)])"
| "splitlines_from line (c # c' # cs) =
     (if c = 13 \<and> c' = 10 then rev line # splitlines_from [] cs
      else if is_linebreak c then rev line # splitlines_from [] (c' # cs)
      else splitlines_from (c # line) (c' # cs))"

definition splitlines :: "str \<Rightarrow> str list" where
  "splitlines s = splitlines_from [] s"

text \<open>A \<open>str\<close> handed over where a sequence of lines is expected is a sequence of
  one-character strings.\<close>

definition chars :: "str \<Rightarrow> str list" where
  "chars s = map (\<lambda>c. [c]) s"

section \<open>The \<open>migrate\<close> command\<close>

definition notice :: "path \<Rightarrow> str" where
  \<comment> \<open>\<open>f"Updated [bold violet]{output}[/]"\<close>\<close>
  "notice p = ascii ''Updated [bold violet]'' @ str_path p @ ascii ''[/]''"

text \<open>
  Two calls of \<open>pprint\<close> in a row, the notice and then the diff text: an exception of
  the first leaves the second undone.
\<close>

definition pprint_both :: "env \<Rightarrow> str \<Rightarrow> str \<Rightarrow> world \<Rightarrow> error option \<times> world" where
  "pprint_both e first second w =
     (case pprint e first w of
        Inl err \<Rightarrow> (Some err, w)
      | Inr w1 \<Rightarrow>
          (case pprint e second w1 of
             Inl err \<Rightarrow> (Some err, w1)
           | Inr w2 \<Rightarrow> (None, w2)))"

text \<open>
  The report of lines 203-213, 242-252 and 265-275: the notice, then the diff of the
  lines of the two texts, labelled with the resolved paths.
\<close>

definition report_lines ::
  "env \<Rightarrow> path \<Rightarrow> path \<Rightarrow> str \<Rightarrow> str \<Rightarrow> world \<Rightarrow> error option \<times> world" where
  "report_lines e inp out content new_content w =
     pprint_both e (notice out)
       (join (ascii ''\<newline>'')
          (unified_diff e (splitlines content) (splitlines new_content)
             (str_path (resolve e inp)) (str_path (resolve e out))))
       w"

text \<open>
  The report of lines 218-228: the two texts go to \<open>unified_diff\<close> as they are, and the
  labels are \<open>str(input)\<close> and \<open>str(output)\<close>.
\<close>

definition report_raw ::
  "env \<Rightarrow> path \<Rightarrow> path \<Rightarrow> str \<Rightarrow> str \<Rightarrow> world \<Rightarrow> error option \<times> world" where
  "report_raw e inp out content new_content w =
     pprint_both e (notice out)
       (join (ascii ''\<newline>'')
          (unified_diff e (chars content) (chars new_content) (str_path inp) (str_path out)))
       w"

text \<open>
  Lines 188-194: where a single input file goes. An existing directory receives the file
  under its own name; a path ending in \<^verbatim>\<open>.py\<close> is the destination itself; anything else
  is taken for a directory to be created.
\<close>

definition file_output :: "env \<Rightarrow> path \<Rightarrow> path \<Rightarrow> world \<Rightarrow> error + path \<times> world" where
  "file_output e input output w =
     (if is_dir e w output then Inr (joinname output (name input), w)
      else if suffix output = ascii ''.py'' then
        (case mkdir_parents e w (parent output) of
           Inl err \<Rightarrow> Inl err
         | Inr w' \<Rightarrow> Inr (output, w'))
      else
        (case mkdir_parents e w (parent (joinname output (name input))) of
           Inl err \<Rightarrow> Inl err
         | Inr w' \<Rightarrow> Inr (joinname output (name input), w')))"

text \<open>Lines 196-228: the single file, once its destination is known.\<close>

definition migrate_file :: "env \<Rightarrow> path \<Rightarrow> path \<Rightarrow> world \<Rightarrow> error option \<times> world" where
  "migrate_file e input output w =
     (case read_text e w input of
        Inl err \<Rightarrow> (Some err, w)
      | Inr content \<Rightarrow>
          let new_content = rewrite (unicode_alnum e) content in
          if output = input then
            if content \<noteq> new_content then
              (case write_text e w output new_content of
                 Inl err \<Rightarrow> (Some err, w)
               | Inr w' \<Rightarrow> report_lines e input output content new_content w')
            else (None, w)
          else
            (case write_text e w output new_content of
               Inl err \<Rightarrow> (Some err, w)
             | Inr w' \<Rightarrow>
                 if content \<noteq> new_content
                 then report_raw e input output content new_content w'
                 else (None, w')))"

text \<open>Lines 232-252: the body of the loop that mirrors a tree into another directory.\<close>

definition mirror_body :: "env \<Rightarrow> path \<Rightarrow> path \<Rightarrow> path \<Rightarrow> world \<Rightarrow> error option \<times> world" where
  "mirror_body e input output inp w =
     (case read_text e w inp of
        Inl err \<Rightarrow> (Some err, w)
      | Inr content \<Rightarrow>
          let new_content = rewrite (unicode_alnum e) content in
          case relative_to inp input of
            None \<Rightarrow> (Some (NotRelativeError inp input), w)
          | Some rel \<Rightarrow>
              let out = joinpath output rel in
              case mkdir_parents e w (parent out) of
                Inl err \<Rightarrow> (Some err, w)
              | Inr w1 \<Rightarrow>
                  case write_text e w1 out new_content of
                    Inl err \<Rightarrow> (Some err, w1)
                  | Inr w2 \<Rightarrow>
                      if content \<noteq> new_content
                      then report_lines e inp out content new_content w2
                      else (None, w2))"

text \<open>Lines 255-275: the body of the loop that rewrites a tree in place.\<close>

definition inplace_body :: "env \<Rightarrow> path \<Rightarrow> path \<Rightarrow> path \<Rightarrow> world \<Rightarrow> error option \<times> world" where
  "inplace_body e input output inp w =
     (case read_text e w inp of
        Inl err \<Rightarrow> (Some err, w)
      | Inr content \<Rightarrow>
          let new_content = rewrite (unicode_alnum e) content in
          if content \<noteq> new_content then
            case relative_to inp input of
              None \<Rightarrow> (Some (NotRelativeError inp input), w)
            | Some rel \<Rightarrow>
                let out = joinpath output rel in
                case mkdir_parents e w (parent out) of
                  Inl err \<Rightarrow> (Some err, w)
                | Inr w1 \<Rightarrow>
                    case write_text e w1 out new_content of
                      Inl err \<Rightarrow> (Some err, w1)
                    | Inr w2 \<Rightarrow> report_lines e inp out content new_content w2
          else (None, w))"

text \<open>
  A \<open>for\<close> loop over the paths that \<open>rglob\<close> yields: an exception raised by the body
  leaves the loop, and nothing in \<open>migrate\<close> catches it.
\<close>

fun for_each ::
  "(path \<Rightarrow> world \<Rightarrow> error option \<times> world) \<Rightarrow> path list \<Rightarrow> world \<Rightarrow> error option \<times> world" where
  "for_each body [] w = (None, w)"
| "for_each body (inp # rest) w =
     (case body inp w of
        (Some err, w') \<Rightarrow> (Some err, w')
      | (None, w') \<Rightarrow> for_each body rest w')"

datatype migration = Upgrade7to8

text \<open>
  Lines 175-180 and the dispatch of lines 187, 229, 230 and 253. The value of
  \<open>output.resolve()\<close> on line 180 is dropped, so \<open>output\<close> stays as it was given.
\<close>

definition migrate ::
  "env \<Rightarrow> migration \<Rightarrow> path \<Rightarrow> path option \<Rightarrow> bool \<Rightarrow> world \<Rightarrow> error option \<times> world" where
  "migrate e mig input0 output0 inplace w =
     (let input = resolve e input0 in
      case (case output0 of
              None \<Rightarrow> if \<not> inplace then Inl ValueError else Inr input
            | Some given \<Rightarrow> Inr given) of
        Inl err \<Rightarrow> (Some err, w)
      | Inr output \<Rightarrow>
          let dropped = resolve e output in
          if \<not> is_dir e w input then
            (case file_output e input output w of
               Inl err \<Rightarrow> (Some err, w)
             | Inr (output', w') \<Rightarrow> migrate_file e input output' w')
          else if output \<noteq> input then
            for_each (mirror_body e input output) (rglob e input) w
          else
            for_each (inplace_body e input output) (rglob e input) w)"

section \<open>A small world for the examples\<close>

text \<open>
  A process whose working directory is \<^verbatim>\<open>/w\<close> in a tree without links; a stand-in for
  \<open>difflib\<close> that gives the two header lines, the lines of the old text and the lines of
  the new one; a stand-in for the markup parser that raises on the texts holding the closing
  tag \<^verbatim>\<open>[/a]\<close>, which closes nothing in any text printed here; the directories \<^verbatim>\<open>/\<close>,
  \<^verbatim>\<open>/w\<close> and \<^verbatim>\<open>/w/t\<close>.
\<close>

definition cwd_resolve :: "path \<Rightarrow> path" where
  "cwd_resolve p = (if absolute p then p else Path True (ascii ''w'' # parts p))"

definition old_then_new :: "str list \<Rightarrow> str list \<Rightarrow> str \<Rightarrow> str \<Rightarrow> str list" where
  "old_then_new a b fromfile tofile =
     [ascii ''--- '' @ fromfile, ascii ''+++ '' @ tofile]
     @ map ((@) (ascii ''-'')) a @ map ((@) (ascii ''+'')) b"

fun holds :: "str \<Rightarrow> str \<Rightarrow> bool" where
  "holds [] tag = (tag = [])"
| "holds (c # cs) tag = (if strip_prefix tag (c # cs) = None then holds cs tag else True)"

definition example_env :: "path list \<Rightarrow> env" where
  "example_env found =
     \<lparr>unicode_alnum = (\<lambda>c. False), resolve = cwd_resolve,
      unified_diff = old_then_new, rglob = (\<lambda>p. found),
      rich_raises = (\<lambda>s. holds s (ascii ''[/a]''))\<rparr>"

definition example_world :: "(path \<times> fdata) list \<Rightarrow> world" where
  "example_world fs =
     \<lparr>dirs = {Path True [], Path True [ascii ''w''], Path True [ascii ''w'', ascii ''t'']},
      files = map_of fs, written = [], console = []\<rparr>"

section \<open>Notions used in the proofs\<close>

text \<open>
  A name made of word characters only; what the alternation behind a fixed prefix
  matches for such names (the maximal run of word characters, when it is a name);
  alternatives that begin with a word character; the character before the position
  behind a text; alternatives without line ends.
\<close>

definition word_only :: "(nat \<Rightarrow> bool) \<Rightarrow> str \<Rightarrow> bool" where
  "word_only ualnum n = (n \<noteq> [] \<and> (\<forall>c\<in>set n. is_word ualnum c))"

definition match_word :: "(nat \<Rightarrow> bool) \<Rightarrow> str \<Rightarrow> str set \<Rightarrow> str \<Rightarrow> (str \<times> str) option" where
  "match_word ualnum p N s =
     (case strip_prefix p s of
        None \<Rightarrow> None
      | Some s' \<Rightarrow>
          if takeWhile (is_word ualnum) s' \<in> N
          then Some (p @ takeWhile (is_word ualnum) s', dropWhile (is_word ualnum) s')
          else None)"

definition starts_word :: "(nat \<Rightarrow> bool) \<Rightarrow> str list \<Rightarrow> bool" where
  "starts_word ualnum alts = (\<forall>a\<in>set alts. a \<noteq> [] \<longrightarrow> is_word ualnum (hd a))"

fun last_of :: "nat option \<Rightarrow> str \<Rightarrow> nat option" where
  "last_of prev [] = prev"
| "last_of prev (c # cs) = Some (last (c # cs))"

definition no_breaks :: "str list \<Rightarrow> bool" where
  "no_breaks alts = (\<forall>a\<in>set alts. \<forall>c\<in>set a. \<not> is_linebreak c)"

section \<open>Properties of the substitution\<close>

lemma sub_None:
  "match_here ualnum alts prev (c # cs) = None \<Longrightarrow>
     sub ualnum alts prev (c # cs) = c # sub ualnum alts (Some c) cs"
  by simp

lemma sub_Some:
  assumes "match_here ualnum alts prev s = Some (m, rest)"
  shows "sub ualnum alts prev s = marker # m @ sub ualnum alts (Some (last m)) rest"
proof (cases s)
  case Nil
  with assms show ?thesis by (auto dest: match_here_Some)
next
  case (Cons c cs)
  with assms show ?thesis by simp
qed

declare sub.simps(2) [simp del]

lemma sub_cases:
  obtains (Nil) "s = []"
  | (Copy) c cs where "s = c # cs" "match_here ualnum alts prev s = None"
      "sub ualnum alts prev s = c # sub ualnum alts (Some c) cs"
  | (Match) m rest where "s = m @ rest" "m \<noteq> []" "match_here ualnum alts prev s = Some (m, rest)"
      "sub ualnum alts prev s = marker # m @ sub ualnum alts (Some (last m)) rest"
proof (cases s)
  case Nil
  then show ?thesis by (rule that(1))
next
  case (Cons c cs)
  show ?thesis
  proof (cases "match_here ualnum alts prev s")
    case None
    with Cons show ?thesis by (intro that(2)[of c cs]) (simp_all add: sub_None)
  next
    case (Some x)
    obtain m rest where x: "x = (m, rest)" by (cases x)
    from Some x have "s = m @ rest" "m \<noteq> []" by (auto dest: match_here_Some)
    moreover from Some x have "sub ualnum alts prev s = marker # m @ sub ualnum alts (Some (last m)) rest"
      by (simp add: sub_Some)
    ultimately show ?thesis using Some x by (intro that(3)[of m rest]) simp_all
  qed
qed

lemma length_sub: "length s \<le> length (sub ualnum alts prev s)"
proof (induction "length s" arbitrary: s prev rule: less_induct)
  case less
  show ?case
  proof (cases rule: sub_cases[where s=s and ualnum=ualnum and alts=alts and prev=prev])
    case Nil
    then show ?thesis by simp
  next
    case (Copy c cs)
    have "length cs \<le> length (sub ualnum alts (Some c) cs)"
      by (rule less) (simp add: Copy(1))
    then show ?thesis unfolding Copy(3) by (simp add: Copy(1))
  next
    case (Match m rest)
    have "length rest \<le> length (sub ualnum alts (Some (last m)) rest)"
      by (rule less) (simp add: Match(1,2))
    then show ?thesis unfolding Match(4) by (simp add: Match(1))
  qed
qed

lemma sub_same_length:
  "length (sub ualnum alts prev s) = length s \<Longrightarrow> sub ualnum alts prev s = s"
proof (induction s arbitrary: prev)
  case Nil
  show ?case by simp
next
  case (Cons c cs)
  show ?case
  proof (cases rule: sub_cases[where s="c # cs" and ualnum=ualnum and alts=alts and prev=prev])
    case Nil
    then show ?thesis by simp
  next
    case (Copy c' cs')
    with Cons show ?thesis by simp
  next
    case (Match m rest)
    have "length rest \<le> length (sub ualnum alts (Some (last m)) rest)"
      by (rule length_sub)
    then have "length (m @ rest) < length (sub ualnum alts prev (c # cs))"
      by (simp add: Match(4))
    with Cons.prems Match(1) show ?thesis by simp
  qed
qed

lemma filter_sub:
  "filter P (sub ualnum alts prev s) = filter P s @ replicate 0 marker" if "\<not> P marker"
  using that
proof (induction "length s" arbitrary: s prev rule: less_induct)
  case less
  show ?case
  proof (cases rule: sub_cases[where s=s and ualnum=ualnum and alts=alts and prev=prev])
    case Nil
    then show ?thesis by simp
  next
    case (Copy c cs)
    have "filter P (sub ualnum alts (Some c) cs) = filter P cs @ replicate 0 marker"
      by (rule less) (simp_all add: Copy(1) less.prems)
    then show ?thesis unfolding Copy(3) by (simp add: Copy(1))
  next
    case (Match m rest)
    have "filter P (sub ualnum alts (Some (last m)) rest) = filter P rest @ replicate 0 marker"
      by (rule less) (simp_all add: Match(1,2) less.prems)
    then show ?thesis unfolding Match(4) by (simp add: Match(1) less.prems)
  qed
qed

lemma count_filter_neq: "c \<noteq> d \<Longrightarrow> count_list (filter (\<lambda>x. x \<noteq> d) xs) c = count_list xs c"
  by (induction xs) auto

lemma count_sub: "c \<noteq> marker \<Longrightarrow> count_list (sub ualnum alts prev s) c = count_list s c"
  using filter_sub[of "\<lambda>x. x \<noteq> marker" ualnum alts prev s] count_filter_neq[of c marker]
  by (metis append_Nil2 replicate_0)

text \<open>
  When every name consists of word characters only, the alternation followed by
  \<^verbatim>\<open>\b\<close> can only match the maximal run of word characters behind the fixed prefix, so
  the result depends on the set of names and not on their order.
\<close>

lemma catalogue_word_only: "\<forall>n\<in>set to_be_replaced. word_only ualnum n"
  by (simp add: to_be_replaced_def ascii_def word_only_def is_word_def)

lemma strip_prefix_iff: "strip_prefix a s = Some r \<longleftrightarrow> s = a @ r"
  using strip_prefix_Some strip_prefix_append by blast

lemma strip_prefix_app:
  "strip_prefix (p @ n) s = (case strip_prefix p s of None \<Rightarrow> None | Some s' \<Rightarrow> strip_prefix n s')"
  by (induction p s rule: strip_prefix.induct) auto

lemma word_at_head: "word_at ualnum (head s) \<longleftrightarrow> s \<noteq> [] \<and> is_word ualnum (hd s)"
  by (cases s) auto

lemma takeWhile_word_only:
  assumes "word_only ualnum n"
  shows "takeWhile (is_word ualnum) (n @ rest) = n \<longleftrightarrow> \<not> word_at ualnum (head rest)"
proof -
  from assms have "takeWhile (is_word ualnum) (n @ rest) = n @ takeWhile (is_word ualnum) rest"
    by (simp add: word_only_def takeWhile_append2)
  then show ?thesis by (cases rest) auto
qed

lemma dropWhile_word_only:
  assumes "word_only ualnum n"
  shows "dropWhile (is_word ualnum) (n @ rest) = dropWhile (is_word ualnum) rest"
  using assms by (simp add: word_only_def dropWhile_append2)

lemma match_alts_word:
  assumes "\<forall>n\<in>set names. word_only ualnum n"
  shows "match_alts ualnum (map ((@) p) names) s = match_word ualnum p (set names) s"
  using assms
proof (induction names)
  case Nil
  show ?case by (simp add: match_word_def split: option.splits)
next
  case (Cons n ns)
  then have n: "word_only ualnum n" and ih: "match_alts ualnum (map ((@) p) ns) s = match_word ualnum p (set ns) s"
    by simp_all
  from n have ne: "n \<noteq> []" and ln: "is_word ualnum (last n)" by (auto simp: word_only_def)
  show ?case
  proof (cases "strip_prefix p s")
    case None
    then show ?thesis using ih by (simp add: strip_prefix_app match_word_def)
  next
    case (Some s')
    show ?thesis
    proof (cases "strip_prefix n s'")
      case None
      then have "takeWhile (is_word ualnum) s' \<noteq> n"
        by (metis option.distinct(1) strip_prefix_append takeWhile_dropWhile_id)
      with None Some ih show ?thesis
        by (simp add: strip_prefix_app match_word_def)
    next
      case (Some rest)
      then have s': "s' = n @ rest" by (simp add: strip_prefix_iff)
      show ?thesis
      proof (cases "word_at ualnum (head rest)")
        case True
        with n have "takeWhile (is_word ualnum) s' \<noteq> n" by (simp add: s' takeWhile_word_only)
        with True Some \<open>strip_prefix p s = Some s'\<close> ih ne ln show ?thesis
          by (simp add: strip_prefix_app match_word_def boundary_def)
      next
        case False
        with n have "takeWhile (is_word ualnum) s' = n" by (simp add: s' takeWhile_word_only)
        moreover from False have "dropWhile (is_word ualnum) s' = rest"
          using n by (cases rest) (auto simp: s' dropWhile_word_only word_only_def)
        ultimately show ?thesis using False Some \<open>strip_prefix p s = Some s'\<close> ne ln
          by (simp add: strip_prefix_app match_word_def boundary_def)
      qed
    qed
  qed
qed

lemma sub_cong:
  assumes "\<And>prev s. match_here ualnum alts prev s = match_here ualnum alts' prev s"
  shows "sub ualnum alts prev s = sub ualnum alts' prev s"
proof (induction "length s" arbitrary: s prev rule: less_induct)
  case less
  show ?case
  proof (cases rule: sub_cases[where s=s and ualnum=ualnum and alts=alts and prev=prev])
    case Nil
    then show ?thesis by simp
  next
    case (Copy c cs)
    have "sub ualnum alts (Some c) cs = sub ualnum alts' (Some c) cs"
      by (rule less) (simp add: Copy(1))
    moreover have "sub ualnum alts' prev s = c # sub ualnum alts' (Some c) cs"
      using Copy(1,2) by (simp add: sub_None assms)
    ultimately show ?thesis unfolding Copy(3) by simp
  next
    case (Match m rest)
    have "sub ualnum alts (Some (last m)) rest = sub ualnum alts' (Some (last m)) rest"
      by (rule less) (simp add: Match(1,2))
    moreover have "sub ualnum alts' prev s = marker # m @ sub ualnum alts' (Some (last m)) rest"
      using Match(3) by (simp add: sub_Some assms)
    ultimately show ?thesis unfolding Match(4) by simp
  qed
qed

lemma pattern1_map: "pattern1 names = map ((@) (ascii ''d.'')) names"
  by (simp add: pattern1_def)

lemma pattern2_map: "pattern2 names = map ((@) []) names"
  by (induction names) (simp_all add: pattern2_def)

lemma sub_order:
  assumes "\<forall>n\<in>set ns1. word_only ualnum n" and "set ns1 = set ns2"
  shows "sub ualnum (map ((@) p) ns1) prev s = sub ualnum (map ((@) p) ns2) prev s"
proof (rule sub_cong)
  fix prev s
  from assms have "\<forall>n\<in>set ns2. word_only ualnum n" by simp
  with assms show "match_here ualnum (map ((@) p) ns1) prev s = match_here ualnum (map ((@) p) ns2) prev s"
    by (simp add: match_here_def match_alts_word)
qed

text \<open>
  How the scan moves over word and non-word characters, and what the two patterns
  match when every name consists of word characters.
\<close>

lemma marker_word: "is_word ualnum marker"
  by (simp add: is_word_def marker_def)

lemma starts_word_pattern2:
  "\<forall>n\<in>set names. word_only ualnum n \<Longrightarrow> starts_word ualnum (pattern2 names)"
  by (auto simp: starts_word_def pattern2_def word_only_def)

lemma starts_word_pattern1: "starts_word ualnum (pattern1 names)"
  by (auto simp: starts_word_def pattern1_def ascii_def is_word_def)

lemma no_match_nonword:
  assumes "starts_word ualnum alts" and "\<not> word_at ualnum (head s)"
  shows "match_here ualnum alts prev s = None"
proof (rule ccontr)
  assume "match_here ualnum alts prev s \<noteq> None"
  then obtain m rest where "match_here ualnum alts prev s = Some (m, rest)" by auto
  then have "s = m @ rest" "m \<noteq> []" "m \<in> set alts" by (auto dest: match_here_Some)
  with assms show False by (cases m) (auto simp: starts_word_def)
qed

lemma no_match_inside:
  "word_at ualnum prev \<Longrightarrow> is_word ualnum c \<Longrightarrow> match_here ualnum alts prev (c # cs) = None"
  by (simp add: match_here_def boundary_def)

lemma sub_nonword:
  "starts_word ualnum alts \<Longrightarrow> \<not> is_word ualnum c \<Longrightarrow>
     sub ualnum alts prev (c # cs) = c # sub ualnum alts (Some c) cs"
  by (simp add: sub_None no_match_nonword)

lemma sub_inside:
  assumes "word_at ualnum prev" and "\<forall>c\<in>set w. is_word ualnum c" and "w \<noteq> []"
  shows "sub ualnum alts prev (w @ r) = w @ sub ualnum alts (Some (last w)) r"
  using assms
proof (induction w arbitrary: prev)
  case Nil
  then show ?case by simp
next
  case (Cons c w)
  then have step: "sub ualnum alts prev ((c # w) @ r) = c # sub ualnum alts (Some c) (w @ r)"
    by (simp add: sub_None no_match_inside)
  show ?case
  proof (cases "w = []")
    case True
    with step show ?thesis by simp
  next
    case False
    with Cons have "sub ualnum alts (Some c) (w @ r) = w @ sub ualnum alts (Some (last w)) r"
      by simp
    with step False show ?thesis by simp
  qed
qed

lemma takeWhile_sub_nonword:
  assumes "starts_word ualnum alts" and "\<not> word_at ualnum (head r)"
  shows "takeWhile (is_word ualnum) (sub ualnum alts prev r) = []"
      and "\<not> word_at ualnum (head (sub ualnum alts prev r))"
  using assms by (cases r; simp add: sub_nonword)+

lemma head_dropWhile: "\<not> word_at ualnum (head (dropWhile (is_word ualnum) s))"
  by (induction s) auto

lemma takeWhile_nonword: "\<not> word_at ualnum (head r) \<Longrightarrow> takeWhile (is_word ualnum) r = []"
  by (cases r) auto

lemma word_split:
  obtains w r where "s = w @ r" "\<forall>c\<in>set w. is_word ualnum c" "\<not> word_at ualnum (head r)"
    "w = takeWhile (is_word ualnum) s" "r = dropWhile (is_word ualnum) s"
proof -
  let ?w = "takeWhile (is_word ualnum) s" and ?r = "dropWhile (is_word ualnum) s"
  have "s = ?w @ ?r" by simp
  moreover have "\<forall>c\<in>set ?w. is_word ualnum c" by (auto dest: set_takeWhileD)
  moreover have "\<not> word_at ualnum (head ?r)"
    by (rule head_dropWhile)
  ultimately show ?thesis using that by blast
qed

lemma takeWhile_sub_word:
  assumes "starts_word ualnum alts" and "word_at ualnum prev"
  shows "takeWhile (is_word ualnum) (sub ualnum alts prev s) = takeWhile (is_word ualnum) s"
proof -
  obtain w r where s: "s = w @ r" and w: "\<forall>c\<in>set w. is_word ualnum c"
    and r: "\<not> word_at ualnum (head r)" and tw: "w = takeWhile (is_word ualnum) s"
    by (rule word_split)
  show ?thesis
  proof (cases "w = []")
    case True
    with s r assms show ?thesis by (simp add: takeWhile_sub_nonword takeWhile_nonword)
  next
    case False
    with assms w have "sub ualnum alts prev s = w @ sub ualnum alts (Some (last w)) r"
      unfolding s by (rule_tac sub_inside)
    with w r assms(1) show ?thesis
      by (simp add: takeWhile_append2 takeWhile_sub_nonword tw[symmetric])
  qed
qed

lemma takeWhile_sub_copy:
  assumes "starts_word ualnum alts"
  shows "takeWhile (is_word ualnum) (c # sub ualnum alts (Some c) cs)
       = takeWhile (is_word ualnum) (c # cs)"
  using assms by (simp add: takeWhile_sub_word)

lemma match_here_pattern2:
  assumes "\<forall>n\<in>set names. word_only ualnum n"
  shows "match_here ualnum (pattern2 names) prev s =
     (if \<not> word_at ualnum prev \<and> takeWhile (is_word ualnum) s \<in> set names
      then Some (takeWhile (is_word ualnum) s, dropWhile (is_word ualnum) s) else None)"
proof -
  have "word_at ualnum (head s)" if "takeWhile (is_word ualnum) s \<in> set names"
  proof -
    from that assms have "takeWhile (is_word ualnum) s \<noteq> []" by (auto simp: word_only_def)
    then show ?thesis by (cases s) (auto split: if_splits)
  qed
  then show ?thesis
    using match_alts_word[OF assms, of "[]" s]
    by (auto simp: match_here_def pattern2_map match_word_def boundary_def)
qed

lemma match_here_pattern1:
  assumes "\<forall>n\<in>set names. word_only ualnum n"
  shows "match_here ualnum (pattern1 names) prev s =
     (case s of
        x # y # s' \<Rightarrow>
          if x = 100 \<and> y = 46 \<and> \<not> word_at ualnum prev \<and> takeWhile (is_word ualnum) s' \<in> set names
          then Some (100 # 46 # takeWhile (is_word ualnum) s', dropWhile (is_word ualnum) s')
          else None
      | _ \<Rightarrow> None)"
proof -
  have d: "is_word ualnum 100" by (simp add: is_word_def)
  have a: "ascii ''d.'' = [100, 46]" by (simp add: ascii_def)
  show ?thesis
    using match_alts_word[OF assms, of "ascii ''d.''" s] d
    by (auto simp: match_here_def pattern1_map match_word_def boundary_def a split: list.splits)
qed


lemma catalogue_no_marker_name: "\<forall>n\<in>set to_be_replaced. marker # n \<notin> set to_be_replaced"
  by (simp add: to_be_replaced_def ascii_def marker_def)

lemma takeWhile_marked:
  assumes "starts_word ualnum alts" and "\<forall>c\<in>set m. is_word ualnum c"
    and "\<not> word_at ualnum (head rest)"
  shows "takeWhile (is_word ualnum) (marker # m @ sub ualnum alts prev rest) = marker # m"
  using assms by (simp add: marker_word takeWhile_append2 takeWhile_sub_nonword)

lemma pattern2_match_parts:
  assumes "\<forall>n\<in>set names. word_only ualnum n"
    and "match_here ualnum (pattern2 names) prev s = Some (m, rest)"
  shows "m \<in> set names" "\<forall>c\<in>set m. is_word ualnum c" "m \<noteq> []"
    "\<not> word_at ualnum (head rest)" "\<not> word_at ualnum prev"
proof -
  from assms have m: "m = takeWhile (is_word ualnum) s" and r: "rest = dropWhile (is_word ualnum) s"
    and n: "m \<in> set names" and p: "\<not> word_at ualnum prev"
    by (auto simp: match_here_pattern2 split: if_splits)
  from n show "m \<in> set names" .
  from n assms(1) show "\<forall>c\<in>set m. is_word ualnum c" "m \<noteq> []" by (auto simp: word_only_def)
  from r show "\<not> word_at ualnum (head rest)" by (simp add: head_dropWhile)
  from p show "\<not> word_at ualnum prev" .
qed

lemma sub_pattern2_idem:
  assumes w: "\<forall>n\<in>set names. word_only ualnum n"
    and nm: "\<forall>n\<in>set names. marker # n \<notin> set names"
  shows "sub ualnum (pattern2 names) prev (sub ualnum (pattern2 names) prev s)
       = sub ualnum (pattern2 names) prev s"
proof (induction "length s" arbitrary: s prev rule: less_induct)
  case less
  note sw = starts_word_pattern2[OF w]
  show ?case
  proof (cases rule: sub_cases[where s=s and ualnum=ualnum and alts="pattern2 names" and prev=prev])
    case Nil
    then show ?thesis by simp
  next
    case (Copy c cs)
    let ?X = "sub ualnum (pattern2 names) (Some c) cs"
    have ih: "sub ualnum (pattern2 names) (Some c) ?X = ?X"
      by (rule less) (simp add: Copy(1))
    have "match_here ualnum (pattern2 names) prev (c # ?X) = None"
      using Copy(2) unfolding Copy(1) match_here_pattern2[OF w] takeWhile_sub_copy[OF sw]
      by (simp split: if_splits)
    then show ?thesis unfolding Copy(3) by (simp add: sub_None ih)
  next
    case (Match m rest)
    let ?X = "sub ualnum (pattern2 names) (Some (last m)) rest"
    note parts = pattern2_match_parts[OF w Match(3)]
    have ih: "sub ualnum (pattern2 names) (Some (last m)) ?X = ?X"
      by (rule less) (simp add: Match(1,2))
    have "takeWhile (is_word ualnum) (marker # m @ ?X) = marker # m"
      using sw parts(2,4) by (rule takeWhile_marked)
    with nm parts(1) have "match_here ualnum (pattern2 names) prev (marker # m @ ?X) = None"
      by (simp add: match_here_pattern2[OF w])
    then have "sub ualnum (pattern2 names) prev (marker # m @ ?X)
        = marker # sub ualnum (pattern2 names) (Some marker) (m @ ?X)"
      by (rule sub_None)
    also have "sub ualnum (pattern2 names) (Some marker) (m @ ?X)
        = m @ sub ualnum (pattern2 names) (Some (last m)) ?X"
      using parts(2,3) by (intro sub_inside) (simp_all add: marker_word)
    finally show ?thesis unfolding Match(4) by (simp add: ih)
  qed
qed

lemma first_word_after_pattern2:
  assumes w: "\<forall>n\<in>set names. word_only ualnum n"
    and nm: "\<forall>n\<in>set names. marker # n \<notin> set names"
    and p: "\<not> word_at ualnum prev"
  shows "takeWhile (is_word ualnum) (sub ualnum (pattern2 names) prev s) \<notin> set names"
proof (cases rule: sub_cases[where s=s and ualnum=ualnum and alts="pattern2 names" and prev=prev])
  case Nil
  with w show ?thesis by (auto simp: word_only_def)
next
  case (Copy c cs)
  from Copy(2) p have "takeWhile (is_word ualnum) (c # cs) \<notin> set names"
    unfolding Copy(1) match_here_pattern2[OF w] by (simp split: if_splits)
  then show ?thesis
    unfolding Copy(3) takeWhile_sub_copy[OF starts_word_pattern2[OF w]] .
next
  case (Match m rest)
  note parts = pattern2_match_parts[OF w Match(3)]
  have "takeWhile (is_word ualnum) (marker # m @ sub ualnum (pattern2 names) (Some (last m)) rest)
      = marker # m"
    using starts_word_pattern2[OF w] parts(2,4) by (rule takeWhile_marked)
  with nm parts(1) show ?thesis unfolding Match(4) by simp
qed

lemma sub_pattern1_after_pattern2:
  assumes w: "\<forall>n\<in>set names. word_only ualnum n"
    and nm: "\<forall>n\<in>set names. marker # n \<notin> set names"
  shows "sub ualnum (pattern1 names) prev (sub ualnum (pattern2 names) prev s)
       = sub ualnum (pattern2 names) prev s"
proof (induction "length s" arbitrary: s prev rule: less_induct)
  case less
  note sw = starts_word_pattern2[OF w]
  have dot: "\<not> is_word ualnum 46" by (simp add: is_word_def)
  show ?case
  proof (cases rule: sub_cases[where s=s and ualnum=ualnum and alts="pattern2 names" and prev=prev])
    case Nil
    then show ?thesis by simp
  next
    case (Copy c cs)
    let ?X = "sub ualnum (pattern2 names) (Some c) cs"
    have ih: "sub ualnum (pattern1 names) (Some c) ?X = ?X"
      by (rule less) (simp add: Copy(1))
    have "match_here ualnum (pattern1 names) prev (c # ?X) = None"
    proof (cases cs)
      case Nil
      then show ?thesis by (simp add: match_here_pattern1[OF w])
    next
      case (Cons y cs')
      show ?thesis
      proof (cases "y = 46")
        case True
        then have X: "?X = 46 # sub ualnum (pattern2 names) (Some 46) cs'"
          using Cons dot by (simp add: sub_nonword[OF sw])
        have "takeWhile (is_word ualnum) (sub ualnum (pattern2 names) (Some 46) cs') \<notin> set names"
          using w nm dot by (intro first_word_after_pattern2) simp_all
        then show ?thesis unfolding X by (simp add: match_here_pattern1[OF w])
      next
        case False
        have "head ?X \<noteq> Some 46"
        proof (cases "is_word ualnum y")
          case True
          show ?thesis
          proof (cases rule: sub_cases[where s=cs and ualnum=ualnum and alts="pattern2 names" and prev="Some c"])
            case Nil
            with Cons show ?thesis by simp
          next
            case (Copy c2 cs2)
            with Cons False show ?thesis by simp
          next
            case (Match m2 rest2)
            then show ?thesis by (simp add: marker_def)
          qed
        next
          case False
          with Cons \<open>y \<noteq> 46\<close> show ?thesis by (simp add: sub_nonword[OF sw])
        qed
        then show ?thesis
          by (cases ?X) (auto simp: match_here_pattern1[OF w] split: list.splits)
      qed
    qed
    then show ?thesis unfolding Copy(3) by (simp add: sub_None ih)
  next
    case (Match m rest)
    let ?X = "sub ualnum (pattern2 names) (Some (last m)) rest"
    note parts = pattern2_match_parts[OF w Match(3)]
    have ih: "sub ualnum (pattern1 names) (Some (last m)) ?X = ?X"
      by (rule less) (simp add: Match(1,2))
    from parts(2,3) dot have "hd m \<noteq> 46" by (cases m) auto
    with parts(3) have "match_here ualnum (pattern1 names) prev (marker # m @ ?X) = None"
      by (cases m) (simp_all add: match_here_pattern1[OF w])
    then have "sub ualnum (pattern1 names) prev (marker # m @ ?X)
        = marker # sub ualnum (pattern1 names) (Some marker) (m @ ?X)"
      by (rule sub_None)
    also have "sub ualnum (pattern1 names) (Some marker) (m @ ?X)
        = m @ sub ualnum (pattern1 names) (Some (last m)) ?X"
      using parts(2,3) by (intro sub_inside) (simp_all add: marker_word)
    finally show ?thesis unfolding Match(4) by (simp add: ih)
  qed
qed

text \<open>
  Cutting a text where no match can cross the cut: the scan of the whole is the scan of
  the parts.
\<close>

lemma last_of_Cons: "last_of (Some c) cs = last_of prev (c # cs)"
  by (cases cs) auto

lemma last_of_append: "m \<noteq> [] \<Longrightarrow> last_of (Some (last m)) r = last_of prev (m @ r)"
  by (cases r; cases m) auto

lemma sub_split:
  assumes compat: "\<And>a b prev'. b \<noteq> [] \<Longrightarrow> s1 = a @ b \<Longrightarrow>
      match_here ualnum alts prev' (b @ s2)
        = map_option (\<lambda>(m, r). (m, r @ s2)) (match_here ualnum alts prev' b)"
  shows "sub ualnum alts prev (s1 @ s2)
       = sub ualnum alts prev s1 @ sub ualnum alts (last_of prev s1) s2"
  using compat
proof (induction "length s1" arbitrary: s1 prev rule: less_induct)
  case less
  show ?case
  proof (cases rule: sub_cases[where s=s1 and ualnum=ualnum and alts=alts and prev=prev])
    case Nil
    then show ?thesis by simp
  next
    case (Copy c cs)
    have "match_here ualnum alts prev (s1 @ s2) = None"
      using less.prems[of s1 "[]" prev] Copy(1,2) by simp
    then have "sub ualnum alts prev (s1 @ s2) = c # sub ualnum alts (Some c) (cs @ s2)"
      unfolding Copy(1) by (simp add: sub_None)
    moreover have "sub ualnum alts (Some c) (cs @ s2)
        = sub ualnum alts (Some c) cs @ sub ualnum alts (last_of (Some c) cs) s2"
    proof (rule less.hyps)
      show "length cs < length s1" by (simp add: Copy(1))
    next
      fix a b prev' assume "b \<noteq> []" "cs = a @ b"
      then show "match_here ualnum alts prev' (b @ s2)
          = map_option (\<lambda>(m, r). (m, r @ s2)) (match_here ualnum alts prev' b)"
        using less.prems[of b "c # a" prev'] Copy(1) by simp
    qed
    ultimately show ?thesis unfolding Copy(3) by (simp add: Copy(1) last_of_Cons[of c cs prev])
  next
    case (Match m rest)
    have "match_here ualnum alts prev (s1 @ s2) = Some (m, rest @ s2)"
      using less.prems[of s1 "[]" prev] Match(2,3) Match(1) by auto
    then have "sub ualnum alts prev (s1 @ s2)
        = marker # m @ sub ualnum alts (Some (last m)) (rest @ s2)"
      by (rule sub_Some)
    moreover have "sub ualnum alts (Some (last m)) (rest @ s2)
        = sub ualnum alts (Some (last m)) rest @ sub ualnum alts (last_of (Some (last m)) rest) s2"
    proof (rule less.hyps)
      show "length rest < length s1" by (simp add: Match(1,2))
    next
      fix a b prev' assume "b \<noteq> []" "rest = a @ b"
      then show "match_here ualnum alts prev' (b @ s2)
          = map_option (\<lambda>(m, r). (m, r @ s2)) (match_here ualnum alts prev' b)"
        using less.prems[of b "m @ a" prev'] Match(1) by simp
    qed
    ultimately show ?thesis
      unfolding Match(4) by (simp add: Match(1) last_of_append[OF Match(2), of rest prev])
  qed
qed

lemma last_sub:
  "s \<noteq> [] \<Longrightarrow> sub ualnum alts prev s \<noteq> [] \<and> last (sub ualnum alts prev s) = last s"
proof (induction "length s" arbitrary: s prev rule: less_induct)
  case less
  show ?case
  proof (cases rule: sub_cases[where s=s and ualnum=ualnum and alts=alts and prev=prev])
    case Nil
    with less.prems show ?thesis by simp
  next
    case (Copy c cs)
    show ?thesis
    proof (cases "cs = []")
      case True
      then show ?thesis unfolding Copy(3) by (simp add: Copy(1))
    next
      case False
      then have "sub ualnum alts (Some c) cs \<noteq> [] \<and> last (sub ualnum alts (Some c) cs) = last cs"
        by (intro less.hyps) (simp_all add: Copy(1))
      with False show ?thesis unfolding Copy(3) by (simp add: Copy(1))
    qed
  next
    case (Match m rest)
    show ?thesis
    proof (cases "rest = []")
      case True
      then show ?thesis unfolding Match(4) by (simp add: Match(1,2))
    next
      case False
      then have "sub ualnum alts (Some (last m)) rest \<noteq> []
          \<and> last (sub ualnum alts (Some (last m)) rest) = last rest"
        by (intro less.hyps) (simp_all add: Match(1,2))
      with False show ?thesis unfolding Match(4) by (simp add: Match(1))
    qed
  qed
qed


lemma takeWhile_ends_nonword:
  assumes "b \<noteq> []" and "\<not> is_word ualnum (last b)"
  shows "takeWhile (is_word ualnum) (b @ t) = takeWhile (is_word ualnum) b"
    and "dropWhile (is_word ualnum) (b @ t) = dropWhile (is_word ualnum) b @ t"
proof -
  from assms have "last b \<in> set b" by simp
  with assms(2) show "takeWhile (is_word ualnum) (b @ t) = takeWhile (is_word ualnum) b"
    and "dropWhile (is_word ualnum) (b @ t) = dropWhile (is_word ualnum) b @ t"
    by (auto intro: takeWhile_append1 dropWhile_append1)
qed

lemma takeWhile_ident:
  assumes "\<forall>c\<in>set ident. is_word ualnum c" and "\<not> word_at ualnum (head post)"
  shows "takeWhile (is_word ualnum) (ident @ post) = ident"
  using assms by (simp add: takeWhile_append2 takeWhile_nonword)

lemma pattern2_compat:
  assumes w: "\<forall>n\<in>set names. word_only ualnum n"
    and b: "b \<noteq> []" "\<not> is_word ualnum (last b)"
  shows "match_here ualnum (pattern2 names) prev (b @ t)
       = map_option (\<lambda>(m, r). (m, r @ t)) (match_here ualnum (pattern2 names) prev b)"
  by (simp add: match_here_pattern2[OF w] takeWhile_ends_nonword[OF b])

lemma pattern1_compat:
  assumes w: "\<forall>n\<in>set names. word_only ualnum n"
    and b: "b \<noteq> []" "\<not> is_word ualnum (last b)"
    and i: "\<forall>c\<in>set ident. is_word ualnum c" "ident \<notin> set names"
    and p: "\<not> word_at ualnum (head post)"
  shows "match_here ualnum (pattern1 names) prev (b @ ident @ post)
       = map_option (\<lambda>(m, r). (m, r @ ident @ post)) (match_here ualnum (pattern1 names) prev b)"
proof -
  have d: "is_word ualnum 100" by (simp add: is_word_def)
  from w have e: "[] \<notin> set names" by (auto simp: word_only_def)
  show ?thesis
  proof (cases b)
    case Nil
    with b show ?thesis by simp
  next
    case (Cons x b1)
    show ?thesis
    proof (cases b1)
      case Nil
      with Cons b d have "x \<noteq> 100" by auto
      with Cons Nil show ?thesis
        by (simp add: match_here_pattern1[OF w] split: list.splits)
    next
      case (Cons y s')
      show ?thesis
      proof (cases "s' = []")
        case True
        with e i(2) show ?thesis
          unfolding \<open>b = x # b1\<close> Cons
          by (simp add: match_here_pattern1[OF w] takeWhile_ident[OF i(1) p])
      next
        case False
        with b \<open>b = x # b1\<close> Cons have "\<not> is_word ualnum (last s')" by simp
        with False show ?thesis
          unfolding \<open>b = x # b1\<close> Cons
          by (simp add: match_here_pattern1[OF w] takeWhile_ends_nonword)
      qed
    qed
  qed
qed

lemma sub_skips_ident:
  assumes none: "match_here ualnum alts prev (ident @ post) = None"
    and i: "\<forall>c\<in>set ident. is_word ualnum c" "ident \<noteq> []"
  shows "sub ualnum alts prev (ident @ post) = ident @ sub ualnum alts (Some (last ident)) post"
proof (cases ident)
  case Nil
  with i show ?thesis by simp
next
  case (Cons c rest)
  with none have step: "sub ualnum alts prev (ident @ post) = c # sub ualnum alts (Some c) (rest @ post)"
    by (simp add: sub_None)
  show ?thesis
  proof (cases "rest = []")
    case True
    with step Cons show ?thesis by simp
  next
    case False
    with i Cons have "sub ualnum alts (Some c) (rest @ post)
        = rest @ sub ualnum alts (Some (last rest)) post"
      by (intro sub_inside) simp_all
    with step False Cons show ?thesis by simp
  qed
qed

lemma sub_after_word:
  assumes "starts_word ualnum alts" and "\<not> word_at ualnum (head post)"
  shows "sub ualnum alts prev post = sub ualnum alts None post"
  using assms by (cases post) (simp_all add: sub_nonword)

lemma last_of_nonword:
  "pre = [] \<or> \<not> is_word ualnum (last pre) \<Longrightarrow> \<not> word_at ualnum (last_of None pre)"
  by (cases pre) auto

lemma sub_pattern2_ident:
  assumes w: "\<forall>n\<in>set names. word_only ualnum n"
    and i: "\<forall>c\<in>set ident. is_word ualnum c" "ident \<noteq> []" "ident \<notin> set names"
    and pre: "pre = [] \<or> \<not> is_word ualnum (last pre)"
    and post: "\<not> word_at ualnum (head post)"
  shows "sub ualnum (pattern2 names) None (pre @ ident @ post)
       = sub ualnum (pattern2 names) None pre @ ident @ sub ualnum (pattern2 names) None post"
proof -
  have "sub ualnum (pattern2 names) None (pre @ ident @ post)
      = sub ualnum (pattern2 names) None pre
        @ sub ualnum (pattern2 names) (last_of None pre) (ident @ post)"
  proof (rule sub_split)
    fix a b prev' assume "b \<noteq> []" "pre = a @ b"
    with pre have "\<not> is_word ualnum (last b)" by auto
    with w \<open>b \<noteq> []\<close> show "match_here ualnum (pattern2 names) prev' (b @ ident @ post)
        = map_option (\<lambda>(m, r). (m, r @ ident @ post)) (match_here ualnum (pattern2 names) prev' b)"
      by (rule pattern2_compat)
  qed
  also have "sub ualnum (pattern2 names) (last_of None pre) (ident @ post)
      = ident @ sub ualnum (pattern2 names) (Some (last ident)) post"
    using i by (intro sub_skips_ident) (simp_all add: match_here_pattern2[OF w] takeWhile_ident[OF i(1) post])
  also have "sub ualnum (pattern2 names) (Some (last ident)) post
      = sub ualnum (pattern2 names) None post"
    using starts_word_pattern2[OF w] post by (rule sub_after_word)
  finally show ?thesis .
qed

lemma sub_pattern1_ident:
  assumes w: "\<forall>n\<in>set names. word_only ualnum n"
    and i: "\<forall>c\<in>set ident. is_word ualnum c" "ident \<noteq> []" "ident \<notin> set names" "ident \<noteq> [100]"
    and pre: "pre = [] \<or> \<not> is_word ualnum (last pre)"
    and post: "\<not> word_at ualnum (head post)"
  shows "sub ualnum (pattern1 names) None (pre @ ident @ post)
       = sub ualnum (pattern1 names) None pre @ ident @ sub ualnum (pattern1 names) None post"
proof -
  have dot: "\<not> is_word ualnum 46" by (simp add: is_word_def)
  have "sub ualnum (pattern1 names) None (pre @ ident @ post)
      = sub ualnum (pattern1 names) None pre
        @ sub ualnum (pattern1 names) (last_of None pre) (ident @ post)"
  proof (rule sub_split)
    fix a b prev' assume "b \<noteq> []" "pre = a @ b"
    with pre have "\<not> is_word ualnum (last b)" by auto
    with w \<open>b \<noteq> []\<close> show "match_here ualnum (pattern1 names) prev' (b @ ident @ post)
        = map_option (\<lambda>(m, r). (m, r @ ident @ post)) (match_here ualnum (pattern1 names) prev' b)"
      using i(1,3) post by (rule pattern1_compat)
  qed
  also have "sub ualnum (pattern1 names) (last_of None pre) (ident @ post)
      = ident @ sub ualnum (pattern1 names) (Some (last ident)) post"
  proof (rule sub_skips_ident)
    show "match_here ualnum (pattern1 names) (last_of None pre) (ident @ post) = None"
    proof (cases ident)
      case Nil
      with i show ?thesis by simp
    next
      case (Cons x rest)
      show ?thesis
      proof (cases rest)
        case Nil
        with Cons i(4) show ?thesis
          by (cases post) (simp_all add: match_here_pattern1[OF w])
      next
        case (Cons y rest')
        with \<open>ident = x # rest\<close> i(1) dot have "y \<noteq> 46" by auto
        with Cons \<open>ident = x # rest\<close> show ?thesis
          by (simp add: match_here_pattern1[OF w])
      qed
    qed
  qed (use i in simp_all)
  also have "sub ualnum (pattern1 names) (Some (last ident)) post
      = sub ualnum (pattern1 names) None post"
    using starts_word_pattern1 post by (rule sub_after_word)
  finally show ?thesis .
qed

lemma pattern1_match_bounded:
  assumes "\<forall>n\<in>set names. word_only ualnum n"
    and "match_here ualnum (pattern1 names) prev s = Some (m, rest)"
  shows "\<not> word_at ualnum prev \<and> \<not> word_at ualnum (head rest)"
  using assms(2) unfolding match_here_pattern1[OF assms(1)]
  by (auto split: list.splits if_splits simp: head_dropWhile)

section \<open>The loop over a tree\<close>

lemma for_each_append:
  "for_each body (xs @ ys) w =
     (case for_each body xs w of
        (Some err, w') \<Rightarrow> (Some err, w')
      | (None, w') \<Rightarrow> for_each body ys w')"
  by (induction xs arbitrary: w) (auto split: prod.splits option.splits)

lemma prims_rglob:
  "read_text (e\<lparr>rglob := g\<rparr>) = read_text e"
  "write_text (e\<lparr>rglob := g\<rparr>) = write_text e"
  "mkdir_parents (e\<lparr>rglob := g\<rparr>) = mkdir_parents e"
  "report_lines (e\<lparr>rglob := g\<rparr>) = report_lines e"
  "is_dir (e\<lparr>rglob := g\<rparr>) = is_dir e"
  "unicode_alnum (e\<lparr>rglob := g\<rparr>) = unicode_alnum e"
  by (intro ext; simp add: read_text_def write_text_def mkdir_parents_def report_lines_def
      pprint_both_def pprint_def is_dir_def)+

lemma body_rglob:
  "mirror_body (e\<lparr>rglob := g\<rparr>) = mirror_body e"
  "inplace_body (e\<lparr>rglob := g\<rparr>) = inplace_body e"
  unfolding mirror_body_def inplace_body_def prims_rglob by (rule refl)+

lemma unreadable_stops:
  assumes "read_text e w bad = Inl err"
  shows "mirror_body e input out bad w = (Some err, w)"
    and "inplace_body e input out bad w = (Some err, w)"
  using assms by (simp_all add: mirror_body_def inplace_body_def)

lemma migrate_tree:
  assumes "is_dir e w (resolve e input0)"
    and "(case output0 of None \<Rightarrow> if \<not> inplace then Inl ValueError else Inr (resolve e input0)
          | Some given \<Rightarrow> Inr given) = Inr out"
  shows "migrate (e\<lparr>rglob := \<lambda>p. found\<rparr>) mig input0 output0 inplace w
       = for_each (if out \<noteq> resolve e input0 then mirror_body e (resolve e input0) out
                   else inplace_body e (resolve e input0) out) found w"
  using assms by (simp add: migrate_def Let_def prims_rglob body_rglob)

section \<open>The lines of a substituted text\<close>

text \<open>
  The number of lines that \<open>splitlines\<close> finds depends on the line under way only
  through its being empty or not, and a substitution whose alternatives hold no line end
  leaves it unchanged.
\<close>

lemma splitlines_from_char:
  "\<not> is_linebreak c \<Longrightarrow> splitlines_from l (c # cs) = splitlines_from (c # l) cs"
  by (cases cs) (auto simp: is_linebreak_def)

lemma splitlines_from_chars:
  "\<forall>c\<in>set m. \<not> is_linebreak c \<Longrightarrow> splitlines_from l (m @ r) = splitlines_from (rev m @ l) r"
  by (induction m arbitrary: l) (simp_all add: splitlines_from_char)

lemma splitlines_from_break:
  "is_linebreak c \<Longrightarrow> c \<noteq> 13 \<Longrightarrow> splitlines_from l (c # cs) = rev l # splitlines_from [] cs"
  by (cases cs) auto

lemma splitlines_from_cr:
  "splitlines_from l (13 # cs) =
     rev l # splitlines_from [] (case cs of [] \<Rightarrow> [] | c' # cs' \<Rightarrow> if c' = 10 then cs' else cs)"
  by (cases cs) (auto simp: is_linebreak_def)

lemma length_splitlines_from:
  "(l = [] \<longleftrightarrow> l' = []) \<Longrightarrow>
     length (splitlines_from l s) = length (splitlines_from l' s)"
proof (induction "length s" arbitrary: s l l' rule: less_induct)
  case less
  show ?case
  proof (cases s)
    case Nil
    with less.prems show ?thesis by simp
  next
    case (Cons c cs)
    consider "\<not> is_linebreak c" | "is_linebreak c" "c \<noteq> 13" | "c = 13" by blast
    then show ?thesis
    proof cases
      case 1
      then show ?thesis unfolding Cons splitlines_from_char[OF 1]
        by (intro less.hyps) (simp_all add: Cons)
    next
      case 2
      then show ?thesis unfolding Cons by (simp add: splitlines_from_break)
    next
      case 3
      then show ?thesis unfolding Cons by (simp add: splitlines_from_cr)
    qed
  qed
qed

lemma no_breaks_match:
  assumes "no_breaks alts" and "match_here ualnum alts prev s = Some (m, rest)"
  shows "\<forall>c\<in>set m. \<not> is_linebreak c"
  using assms by (auto simp: no_breaks_def dest: match_here_Some)

lemma length_splitlines_sub:
  assumes nb: "no_breaks alts"
  shows "(l = [] \<longleftrightarrow> l' = []) \<Longrightarrow>
     length (splitlines_from l (sub ualnum alts prev s)) = length (splitlines_from l' s)"
proof (induction "length s" arbitrary: s l l' prev rule: less_induct)
  case less
  have nl: "match_here ualnum alts p (10 # t) = None" for p t
  proof (rule ccontr)
    assume "match_here ualnum alts p (10 # t) \<noteq> None"
    then obtain m rest where m: "match_here ualnum alts p (10 # t) = Some (m, rest)" by auto
    then have "10 # t = m @ rest" "m \<noteq> []" by (auto dest: match_here_Some)
    then have "10 \<in> set m" by (cases m) auto
    with no_breaks_match[OF nb m] show False by (auto simp: is_linebreak_def)
  qed
  show ?case
  proof (cases rule: sub_cases[where s=s and ualnum=ualnum and alts=alts and prev=prev])
    case Nil
    with less.prems show ?thesis by simp
  next
    case (Copy c cs)
    let ?X = "sub ualnum alts (Some c) cs"
    consider "\<not> is_linebreak c" | "is_linebreak c" "c \<noteq> 13" | "c = 13" by blast
    then show ?thesis
    proof cases
      case 1
      have "length (splitlines_from (c # l) ?X) = length (splitlines_from (c # l') cs)"
        by (rule less.hyps) (simp_all add: Copy(1))
      then show ?thesis unfolding Copy(3) unfolding Copy(1) by (simp add: splitlines_from_char[OF 1])
    next
      case 2
      have "length (splitlines_from [] ?X) = length (splitlines_from [] cs)"
        by (rule less.hyps) (simp_all add: Copy(1))
      then show ?thesis unfolding Copy(3) unfolding Copy(1) by (simp add: splitlines_from_break[OF 2])
    next
      case 3
      show ?thesis
      proof (cases cs)
        case Nil
        then show ?thesis unfolding Copy(3) unfolding Copy(1) 3 by simp
      next
        case (Cons c' cs')
        show ?thesis
        proof (cases "c' = 10")
          case True
          have X: "?X = 10 # sub ualnum alts (Some 10) cs'"
            unfolding Cons True by (simp add: sub_None nl)
          have "length (splitlines_from [] (sub ualnum alts (Some 10) cs'))
              = length (splitlines_from [] cs')"
            by (rule less.hyps) (simp_all add: Copy(1) Cons)
          then show ?thesis unfolding Copy(3) X unfolding Copy(1) Cons True 3
            by (simp add: splitlines_from_cr)
        next
          case False
          have "\<exists>x xs. ?X = x # xs \<and> x \<noteq> 10"
          proof (cases rule: sub_cases[where s=cs and ualnum=ualnum and alts=alts and prev="Some c"])
            case Nil
            with Cons show ?thesis by simp
          next
            case (Copy c2 cs2)
            with Cons False show ?thesis by simp
          next
            case (Match m2 rest2)
            then show ?thesis by (simp add: marker_def)
          qed
          then obtain x xs where X: "?X = x # xs" "x \<noteq> 10" by blast
          have "length (splitlines_from [] ?X) = length (splitlines_from [] cs)"
            by (rule less.hyps) (simp_all add: Copy(1))
          with X False show ?thesis unfolding Copy(3) unfolding Copy(1) 3 Cons
            by (simp add: is_linebreak_def)
        qed
      qed
    qed
  next
    case (Match m rest)
    let ?X = "sub ualnum alts (Some (last m)) rest"
    note m = no_breaks_match[OF nb Match(3)]
    have mk: "\<not> is_linebreak marker" by (simp add: is_linebreak_def marker_def)
    have "length (splitlines_from (rev m @ marker # l) ?X) = length (splitlines_from (rev m @ l') rest)"
      by (rule less.hyps) (simp_all add: Match(1,2))
    then show ?thesis unfolding Match(4) unfolding Match(1)
      by (simp add: splitlines_from_char[OF mk] splitlines_from_chars[OF m])
  qed
qed

lemma catalogue_no_breaks:
  "no_breaks (pattern1 to_be_replaced)" "no_breaks (pattern2 to_be_replaced)"
  by (simp_all add: no_breaks_def pattern1_def pattern2_def to_be_replaced_def ascii_def
      is_linebreak_def)

lemma length_splitlines_rewrite:
  "length (splitlines (rewrite ualnum content)) = length (splitlines content)"
  unfolding splitlines_def rewrite_def rewrite_with_def
  by (simp add: length_splitlines_sub[OF catalogue_no_breaks(2), of "[]" "[]"]
      length_splitlines_sub[OF catalogue_no_breaks(1), of "[]" "[]"])

text \<open>
  An identifier that is neither a legacy name nor the marker alone passes through both
  substitutions, and the texts around it are rewritten on their own.
\<close>

lemma ident_kept:
  assumes ident: "ident \<noteq> []" "\<forall>c\<in>set ident. is_word ualnum c"
    and other: "ident \<notin> set to_be_replaced" "ident \<noteq> ascii ''d''"
    and pre: "pre = [] \<or> \<not> is_word ualnum (last pre)"
    and post: "post = [] \<or> \<not> is_word ualnum (hd post)"
  shows "sub ualnum (pattern1 to_be_replaced) None (pre @ ident @ post)
           = sub ualnum (pattern1 to_be_replaced) None pre @ ident
             @ sub ualnum (pattern1 to_be_replaced) None post
       \<and> sub ualnum (pattern2 to_be_replaced) None (pre @ ident @ post)
           = sub ualnum (pattern2 to_be_replaced) None pre @ ident
             @ sub ualnum (pattern2 to_be_replaced) None post
       \<and> rewrite ualnum (pre @ ident @ post)
           = rewrite ualnum pre @ ident @ rewrite ualnum post
       \<and> (rewrite ualnum pre = [] \<or> \<not> is_word ualnum (last (rewrite ualnum pre)))
       \<and> (rewrite ualnum post = [] \<or> \<not> is_word ualnum (hd (rewrite ualnum post)))"
proof -
  note w = catalogue_word_only[of ualnum]
  let ?P1 = "pattern1 to_be_replaced" and ?P2 = "pattern2 to_be_replaced"
  from post have post': "\<not> word_at ualnum (head post)" by (cases post) auto
  from other have nd: "ident \<noteq> [100]" by (simp add: ascii_def)
  have last_keep: "t = [] \<or> \<not> is_word ualnum (last t) \<Longrightarrow>
      sub ualnum alts None t = [] \<or> \<not> is_word ualnum (last (sub ualnum alts None t))" for t alts
    using last_sub[of t ualnum alts None] by (cases "t = []") auto
  have hd_keep: "starts_word ualnum alts \<Longrightarrow> \<not> word_at ualnum (head t) \<Longrightarrow>
      \<not> word_at ualnum (head (sub ualnum alts None t))" for t alts
    by (rule takeWhile_sub_nonword(2))
  have p1: "sub ualnum ?P1 None (pre @ ident @ post)
      = sub ualnum ?P1 None pre @ ident @ sub ualnum ?P1 None post"
    using w ident(2,1) other(1) nd pre post' by (rule sub_pattern1_ident)
  have p2: "sub ualnum ?P2 None (pre @ ident @ post)
      = sub ualnum ?P2 None pre @ ident @ sub ualnum ?P2 None post"
    using w ident(2,1) other(1) pre post' by (rule sub_pattern2_ident)
  have pre1: "sub ualnum ?P1 None pre = [] \<or> \<not> is_word ualnum (last (sub ualnum ?P1 None pre))"
    using pre by (rule last_keep)
  have post1: "\<not> word_at ualnum (head (sub ualnum ?P1 None post))"
    using starts_word_pattern1 post' by (rule hd_keep)
  have rw: "rewrite ualnum (pre @ ident @ post) = rewrite ualnum pre @ ident @ rewrite ualnum post"
    unfolding rewrite_def rewrite_with_def p1
    using w ident(2,1) other(1) pre1 post1 by (rule sub_pattern2_ident)
  have pre2: "rewrite ualnum pre = [] \<or> \<not> is_word ualnum (last (rewrite ualnum pre))"
    unfolding rewrite_def rewrite_with_def using pre1 by (rule last_keep)
  have "\<not> word_at ualnum (head (rewrite ualnum post))"
    unfolding rewrite_def rewrite_with_def
    using starts_word_pattern2[OF w] post1 by (rule hd_keep)
  then have post2: "rewrite ualnum post = [] \<or> \<not> is_word ualnum (hd (rewrite ualnum post))"
    by (cases "rewrite ualnum post") auto
  from p1 p2 rw pre2 post2 show ?thesis by blast
qed

lemma match_bounded:
  "match_here ualnum (pattern1 to_be_replaced) prev s = Some (m, rest)
     \<or> match_here ualnum (pattern2 to_be_replaced) prev s = Some (m, rest)
   \<Longrightarrow> \<not> word_at ualnum prev \<and> \<not> word_at ualnum (head rest)"
  using pattern1_match_bounded[OF catalogue_word_only, of ualnum prev s m rest]
    pattern2_match_parts(4,5)[OF catalogue_word_only, of ualnum prev s m rest]
  by blast

lemma marker_alone_contains_no_name:
  assumes "n \<in> set to_be_replaced" and "ident = u @ n @ v"
  shows "ident \<noteq> ascii ''d''"
proof
  assume "ident = ascii ''d''"
  with assms(2) have "u @ n @ v = [100]" by (simp add: ascii_def)
  moreover from assms(1) catalogue_word_only[of "\<lambda>c. False"] have "n \<noteq> []"
    by (auto simp: word_only_def)
  ultimately have "n = [100]"
    by (cases u; cases n; simp)
  with assms(1) show False by (simp add: to_be_replaced_def ascii_def)
qed

section \<open>The rewrite of a text\<close>

lemmas rewrite_eval =
  rewrite_def rewrite_with_def pattern1_def pattern2_def to_be_replaced_def ascii_def
  match_here_def boundary_def is_word_def marker_def sub.simps

text \<open>
  Claim C1. On the text \<^verbatim>\<open>p.center = (0, 0)\<close>, newline, \<^verbatim>\<open>d.center\<close> the qualified pattern
  runs first and turns \<^verbatim>\<open>d.center\<close> into \<^verbatim>\<open>dd.center\<close>; the bare pattern then runs on
  that result and rewrites the \<open>center\<close> of \<^verbatim>\<open>p.center\<close> and the \<open>center\<close> of
  \<^verbatim>\<open>dd.center\<close>. The final text is \<^verbatim>\<open>p.dcenter = (0, 0)\<close>, newline, \<^verbatim>\<open>dd.dcenter\<close>,
  with the one-rule catalogue \<open>center\<close> and with the full catalogue alike.
\<close>

theorem C1_concrete_scenario:
  "sub ualnum (pattern1 [ascii ''center'']) None (ascii ''p.center = (0, 0)\<newline>d.center'')
     = ascii ''p.center = (0, 0)\<newline>dd.center''
   \<and> sub ualnum (pattern2 [ascii ''center'']) None (ascii ''p.center = (0, 0)\<newline>dd.center'')
     = ascii ''p.dcenter = (0, 0)\<newline>dd.dcenter''
   \<and> rewrite_with ualnum [ascii ''center''] (ascii ''p.center = (0, 0)\<newline>d.center'')
     = ascii ''p.dcenter = (0, 0)\<newline>dd.dcenter''
   \<and> rewrite ualnum (ascii ''p.center = (0, 0)\<newline>d.center'')
     = ascii ''p.dcenter = (0, 0)\<newline>dd.dcenter''"
  by (simp add: rewrite_eval)

text \<open>
  Claim C10. The rewritten text is at least as long as the original; deleting every
  marker character \<open>d\<close> from both gives the same text, so a substitution only inserts
  markers; the number of newline characters (code point 10) and the number of lines that
  \<open>splitlines\<close> finds are unchanged; and a rewritten text that differs from the original
  is strictly longer.
\<close>

theorem C10_length_and_lines:
  "length content \<le> length (rewrite ualnum content)
   \<and> filter (\<lambda>c. c \<noteq> marker) (rewrite ualnum content) = filter (\<lambda>c. c \<noteq> marker) content
   \<and> count_list (rewrite ualnum content) 10 = count_list content 10
   \<and> length (splitlines (rewrite ualnum content)) = length (splitlines content)
   \<and> (rewrite ualnum content \<noteq> content \<longrightarrow> length content < length (rewrite ualnum content))"
proof -
  let ?mid = "sub ualnum (pattern1 to_be_replaced) None content"
  have r: "rewrite ualnum content = sub ualnum (pattern2 to_be_replaced) None ?mid"
    by (simp add: rewrite_def rewrite_with_def)
  have l1: "length content \<le> length ?mid" by (rule length_sub)
  have l2: "length ?mid \<le> length (rewrite ualnum content)" unfolding r by (rule length_sub)
  have same: "rewrite ualnum content = content" if eq: "length (rewrite ualnum content) = length content"
  proof -
    from eq l1 l2 have a: "length ?mid = length content" and b: "length (rewrite ualnum content) = length ?mid" by simp_all
    from a have "?mid = content" by (rule sub_same_length)
    moreover from b have "rewrite ualnum content = ?mid" unfolding r by (rule sub_same_length)
    ultimately show ?thesis by simp
  qed
  have len: "length content \<le> length (rewrite ualnum content)" using l1 l2 by simp
  have strict: "rewrite ualnum content \<noteq> content \<longrightarrow> length content < length (rewrite ualnum content)"
    using same len by (cases "length (rewrite ualnum content) = length content") auto
  have nl: "(10::nat) \<noteq> marker" by (simp add: marker_def)
  have flt: "filter (\<lambda>c. c \<noteq> marker) (rewrite ualnum content) = filter (\<lambda>c. c \<noteq> marker) content"
    unfolding r by (simp add: filter_sub)
  have cnt: "count_list (rewrite ualnum content) 10 = count_list content 10"
    unfolding r using nl by (simp add: count_sub)
  note lines = length_splitlines_rewrite [of ualnum content]
  from len flt cnt lines strict show ?thesis by blast
qed

theorem C10_length_and_lines_witness:
  "rewrite (\<lambda>c. False) (ascii ''center'') \<noteq> ascii ''center''
   \<and> length (ascii ''center'') < length (rewrite (\<lambda>c. False) (ascii ''center''))"
proof -
  have ne: "rewrite (\<lambda>c. False) (ascii ''center'') \<noteq> ascii ''center''"
    by (simp add: rewrite_eval)
  with C10_length_and_lines [of "ascii ''center''" "\<lambda>c. False"] show ?thesis by blast
qed

text \<open>
  Claim C9. Any two enumerations of the catalogue's names give the same substitution
  for the qualified pattern, the same for the bare pattern, and the same rewrite, on every
  text: the closing \<^verbatim>\<open>\b\<close> makes the order of prefix-related names such as
  \<open>move\<close>/\<open>movex\<close> or \<open>x\<close>/\<open>xmax\<close>/\<open>xmin\<close>/\<open>xsize\<close> irrelevant.
\<close>

theorem C9_alternation_order:
  assumes "set ns1 = set to_be_replaced" and "set ns2 = set to_be_replaced"
  shows "sub ualnum (pattern1 ns1) prev content = sub ualnum (pattern1 ns2) prev content
       \<and> sub ualnum (pattern2 ns1) prev content = sub ualnum (pattern2 ns2) prev content
       \<and> rewrite_with ualnum ns1 content = rewrite_with ualnum ns2 content"
proof -
  from assms have w: "\<forall>n\<in>set ns1. word_only ualnum n" and e: "set ns1 = set ns2"
    using catalogue_word_only by auto
  have "\<And>p prev s. sub ualnum (map ((@) p) ns1) prev s = sub ualnum (map ((@) p) ns2) prev s"
    by (rule sub_order [OF w e])
  then show ?thesis
    by (simp add: rewrite_with_def pattern1_map pattern2_map)
qed

theorem C9_alternation_order_witness:
  "set (rev to_be_replaced) = set to_be_replaced
   \<and> rewrite_with (\<lambda>c. False) (rev to_be_replaced) (ascii ''d.movex(xsize, x)'')
       = rewrite_with (\<lambda>c. False) to_be_replaced (ascii ''d.movex(xsize, x)'')
   \<and> rewrite_with (\<lambda>c. False) to_be_replaced (ascii ''d.movex(xsize, x)'')
       = ascii ''dd.dmovex(dxsize, dx)''"
proof -
  have s: "set (rev to_be_replaced) = set to_be_replaced" by simp
  have v: "rewrite_with (\<lambda>c. False) to_be_replaced (ascii ''d.movex(xsize, x)'')
       = ascii ''dd.dmovex(dxsize, dx)''"
    by (simp add: rewrite_eval)
  from C9_alternation_order [OF s refl, of "\<lambda>c. False" None "ascii ''d.movex(xsize, x)''"] s v
  show ?thesis by simp
qed

text \<open>
  Claim C2. Applying the rewrite (qualified pattern, then bare pattern, over the
  catalogue with marker \<open>d\<close>) to its own result changes nothing:
  \<open>rewrite (rewrite t) = rewrite t\<close> for every text \<open>t\<close>.
\<close>

theorem C2_idempotent: "rewrite ualnum (rewrite ualnum content) = rewrite ualnum content"
proof -
  note w = catalogue_word_only[of ualnum] and nm = catalogue_no_marker_name
  show ?thesis
    unfolding rewrite_def rewrite_with_def
    by (simp only: sub_pattern1_after_pattern2[OF w nm] sub_pattern2_idem[OF w nm])
qed

text \<open>
  Claim C8. An identifier (a maximal run of word characters, delimited by non-word
  characters or the ends of the text) that contains a legacy name as a substring without
  being a legacy name itself, as \<open>recentered\<close> contains \<open>center\<close>, is copied unchanged
  by the qualified pass, by the bare pass and by the rewrite; the text before it and the
  text after it are rewritten on their own, and it stays delimited. Either pattern matches
  only where the character before the match and the character after it are non-word
  characters or ends of the text.
\<close>

theorem C8_boundary_respect:
  assumes ident: "ident \<noteq> []" "\<forall>c\<in>set ident. is_word ualnum c"
    and contains: "n \<in> set to_be_replaced" "ident = u @ n @ v"
    and other: "ident \<notin> set to_be_replaced"
    and pre: "pre = [] \<or> \<not> is_word ualnum (last pre)"
    and post: "post = [] \<or> \<not> is_word ualnum (hd post)"
  shows "sub ualnum (pattern1 to_be_replaced) None (pre @ ident @ post)
           = sub ualnum (pattern1 to_be_replaced) None pre @ ident
             @ sub ualnum (pattern1 to_be_replaced) None post
       \<and> sub ualnum (pattern2 to_be_replaced) None (pre @ ident @ post)
           = sub ualnum (pattern2 to_be_replaced) None pre @ ident
             @ sub ualnum (pattern2 to_be_replaced) None post
       \<and> rewrite ualnum (pre @ ident @ post)
           = rewrite ualnum pre @ ident @ rewrite ualnum post
       \<and> (rewrite ualnum pre = [] \<or> \<not> is_word ualnum (last (rewrite ualnum pre)))
       \<and> (rewrite ualnum post = [] \<or> \<not> is_word ualnum (hd (rewrite ualnum post)))
       \<and> (match_here ualnum (pattern1 to_be_replaced) prev s = Some (m, rest)
            \<or> match_here ualnum (pattern2 to_be_replaced) prev s = Some (m, rest)
          \<longrightarrow> \<not> word_at ualnum prev \<and> \<not> word_at ualnum (head rest))"
proof -
  from contains have "ident \<noteq> ascii ''d''" by (rule marker_alone_contains_no_name)
  with ident other have kept:
    "sub ualnum (pattern1 to_be_replaced) None (pre @ ident @ post)
           = sub ualnum (pattern1 to_be_replaced) None pre @ ident
             @ sub ualnum (pattern1 to_be_replaced) None post
       \<and> sub ualnum (pattern2 to_be_replaced) None (pre @ ident @ post)
           = sub ualnum (pattern2 to_be_replaced) None pre @ ident
             @ sub ualnum (pattern2 to_be_replaced) None post
       \<and> rewrite ualnum (pre @ ident @ post)
           = rewrite ualnum pre @ ident @ rewrite ualnum post
       \<and> (rewrite ualnum pre = [] \<or> \<not> is_word ualnum (last (rewrite ualnum pre)))
       \<and> (rewrite ualnum post = [] \<or> \<not> is_word ualnum (hd (rewrite ualnum post)))"
    using pre post by (intro ident_kept)
  have "match_here ualnum (pattern1 to_be_replaced) prev s = Some (m, rest)
        \<or> match_here ualnum (pattern2 to_be_replaced) prev s = Some (m, rest)
      \<longrightarrow> \<not> word_at ualnum prev \<and> \<not> word_at ualnum (head rest)"
    using match_bounded by blast
  with kept show ?thesis by blast
qed

theorem C8_boundary_respect_witness:
  "rewrite (\<lambda>c. False) (ascii ''a = recentered(x)'') = ascii ''a = recentered(dx)''
   \<and> match_here (\<lambda>c. False) (pattern2 to_be_replaced) None (ascii ''center + 1'')
       = Some (ascii ''center'', ascii '' + 1'')
   \<and> \<not> word_at (\<lambda>c. False) None \<and> \<not> word_at (\<lambda>c. False) (head (ascii '' + 1''))"
proof -
  have h: "ascii ''recentered'' \<noteq> []" "\<forall>c\<in>set (ascii ''recentered''). is_word (\<lambda>c. False) c"
    "ascii ''center'' \<in> set to_be_replaced"
    "ascii ''recentered'' = ascii ''re'' @ ascii ''center'' @ ascii ''ed''"
    "ascii ''recentered'' \<notin> set to_be_replaced"
    "ascii ''a = '' = [] \<or> \<not> is_word (\<lambda>c. False) (last (ascii ''a = ''))"
    "ascii ''(x)'' = [] \<or> \<not> is_word (\<lambda>c. False) (hd (ascii ''(x)''))"
    by (simp_all add: ascii_def is_word_def to_be_replaced_def)
  have m: "match_here (\<lambda>c. False) (pattern2 to_be_replaced) None (ascii ''center + 1'')
       = Some (ascii ''center'', ascii '' + 1'')"
    by (simp add: rewrite_eval)
  have e: "rewrite (\<lambda>c. False) (ascii ''a = '') = ascii ''a = ''"
    "rewrite (\<lambda>c. False) (ascii ''(x)'') = ascii ''(dx)''"
    by (simp_all add: rewrite_eval)
  have a: "ascii ''a = recentered(x)'' = ascii ''a = '' @ ascii ''recentered'' @ ascii ''(x)''"
    "ascii ''a = recentered(dx)'' = ascii ''a = '' @ ascii ''recentered'' @ ascii ''(dx)''"
    by (simp_all add: ascii_def)
  from C8_boundary_respect [OF h, of None "ascii ''center + 1''" "ascii ''center''" "ascii '' + 1''"] m
  show ?thesis unfolding a e by blast
qed

section \<open>The file tasks of \<open>migrate\<close>\<close>

lemmas driver_eval =
  migrate_def file_output_def migrate_file_def mirror_body_def inplace_body_def
  read_text_def write_text_def mkdir_parents_def is_dir_def file_above_def above_def
  pprint_def pprint_both_def report_lines_def report_raw_def notice_def str_path_def
  joinpath_def joinname_def parent_def name_def suffix_def relative_to_def ancestors_def
  splitlines_def is_linebreak_def chars_def
  example_env_def example_world_def cwd_resolve_def old_then_new_def Let_def

lemma run_result: "fst r = x \<Longrightarrow> r = (x, snd r)"
  by (cases r) simp

text \<open>
  Claim C3 says that a file whose destination is its source is written only when its text
  changed. Line 180 drops the resolved output path, so an output that names the source in
  another form is unequal to the resolved input on lines 199 and 230, and the file is
  written whether its text changed or not. Evaluated in the working directory \<^verbatim>\<open>/w\<close>, with
  texts that the rewrite leaves as they are: for the input \<^verbatim>\<open>a.py\<close> and the output
  \<^verbatim>\<open>a.py\<close>, the path \<^verbatim>\<open>a.py\<close>, which resolves to the source \<^verbatim>\<open>/w/a.py\<close>, is written; for
  the directory \<^verbatim>\<open>t\<close> as input and as output, \<^verbatim>\<open>t/b.py\<close>, which resolves to the source
  \<^verbatim>\<open>/w/t/b.py\<close>, is written; for the directory \<^verbatim>\<open>t\<close> with \<^verbatim>\<open>--inplace\<close> and no output,
  nothing is written.
\<close>

theorem C3_unchanged_file_rewritten:
  "written (snd (migrate
      \<lparr>unicode_alnum = ua, resolve = cwd_resolve, unified_diff = ud, rglob = rg, rich_raises = rr\<rparr>
      Upgrade7to8 (Path False [ascii ''a.py'']) (Some (Path False [ascii ''a.py''])) False
      (example_world [(Path True [ascii ''w'', ascii ''a.py''], Utf8 (ascii ''z = 1''))])))
    = [(Path False [ascii ''a.py''], ascii ''z = 1'')]
   \<and> cwd_resolve (Path False [ascii ''a.py'']) = Path True [ascii ''w'', ascii ''a.py'']
   \<and> rewrite ua (ascii ''z = 1'') = ascii ''z = 1''
   \<and> written (snd (migrate
      \<lparr>unicode_alnum = ua, resolve = cwd_resolve, unified_diff = ud,
       rglob = (\<lambda>p. [Path True [ascii ''w'', ascii ''t'', ascii ''b.py'']]), rich_raises = rr\<rparr>
      Upgrade7to8 (Path False [ascii ''t'']) (Some (Path False [ascii ''t''])) False
      (example_world [(Path True [ascii ''w'', ascii ''t'', ascii ''b.py''], Utf8 (ascii ''z = 1''))])))
    = [(Path False [ascii ''t'', ascii ''b.py''], ascii ''z = 1'')]
   \<and> cwd_resolve (Path False [ascii ''t'', ascii ''b.py''])
       = Path True [ascii ''w'', ascii ''t'', ascii ''b.py'']
   \<and> written (snd (migrate
      \<lparr>unicode_alnum = ua, resolve = cwd_resolve, unified_diff = ud,
       rglob = (\<lambda>p. [Path True [ascii ''w'', ascii ''t'', ascii ''b.py'']]), rich_raises = rr\<rparr>
      Upgrade7to8 (Path False [ascii ''t'']) None True
      (example_world [(Path True [ascii ''w'', ascii ''t'', ascii ''b.py''], Utf8 (ascii ''z = 1''))])))
    = []"
  by (simp add: driver_eval rewrite_eval)

text \<open>
  Claim C4, as the specification states it, fails on the code: in the tree \<^verbatim>\<open>/w/t\<close> with
  the undecodable \<^verbatim>\<open>bad.py\<close> enumerated before \<^verbatim>\<open>good.py\<close> (whose text \<open>center\<close> the
  rewrite would change), the run ends with the \<open>UnicodeDecodeError\<close> of \<^verbatim>\<open>bad.py\<close> and the
  world is as it was: \<^verbatim>\<open>good.py\<close> has not been processed and nothing has been written.
\<close>

theorem C4_counterexample:
  "migrate
      (example_env [Path True [ascii ''w'', ascii ''t'', ascii ''bad.py''],
                    Path True [ascii ''w'', ascii ''t'', ascii ''good.py'']])
      Upgrade7to8 (Path True [ascii ''w'', ascii ''t'']) None True
      (example_world [(Path True [ascii ''w'', ascii ''t'', ascii ''bad.py''], Undecodable),
                      (Path True [ascii ''w'', ascii ''t'', ascii ''good.py''], Utf8 (ascii ''center''))])
    = (Some (UnicodeDecodeError (Path True [ascii ''w'', ascii ''t'', ascii ''bad.py''])),
       example_world [(Path True [ascii ''w'', ascii ''t'', ascii ''bad.py''], Undecodable),
                      (Path True [ascii ''w'', ascii ''t'', ascii ''good.py''], Utf8 (ascii ''center''))])
   \<and> rewrite (\<lambda>c. False) (ascii ''center'') = ascii ''dcenter''
   \<and> written (example_world
        [(Path True [ascii ''w'', ascii ''t'', ascii ''bad.py''], Undecodable),
         (Path True [ascii ''w'', ascii ''t'', ascii ''good.py''], Utf8 (ascii ''center''))]) = []"
  by (simp add: driver_eval rewrite_eval)

text \<open>
  Claim C4, amended. When a directory tree is processed, the first exception ends the run
  and is the only one reported. If the files enumerated before a file that cannot be
  decoded as UTF-8 have been processed without an exception, the run ends at that file with
  its \<open>UnicodeDecodeError\<close> and the world is as those files left it, whatever files
  are enumerated after it. If one of the files enumerated first raises (on reading, on
  creating the directory, on writing, or in \<open>rich.print\<close>), the run ends with that
  exception and the world as it was then, whatever files are enumerated after them.
\<close>

theorem C4_amended:
  assumes "is_dir e w (resolve e input0)"
  shows "(migrate (e\<lparr>rglob := \<lambda>p. before\<rparr>) mig input0 output0 inplace w = (None, w1)
            \<and> read_text e w1 bad = Inl (UnicodeDecodeError bad)
          \<longrightarrow> migrate (e\<lparr>rglob := \<lambda>p. before @ bad # after\<rparr>) mig input0 output0 inplace w
                = (Some (UnicodeDecodeError bad), w1))
       \<and> (migrate (e\<lparr>rglob := \<lambda>p. before\<rparr>) mig input0 output0 inplace w = (Some err, w1)
          \<longrightarrow> migrate (e\<lparr>rglob := \<lambda>p. before @ after\<rparr>) mig input0 output0 inplace w
                = (Some err, w1))"
proof (cases "(case output0 of None \<Rightarrow> if \<not> inplace then Inl ValueError else Inr (resolve e input0)
          | Some given \<Rightarrow> Inr given)")
  case (Inl err')
  then have run: "migrate (e\<lparr>rglob := \<lambda>p. found\<rparr>) mig input0 output0 inplace w = (Some err', w)"
    for found
    by (simp add: migrate_def Let_def)
  show ?thesis unfolding run by simp
next
  case (Inr out)
  define body where "body = (if out \<noteq> resolve e input0 then mirror_body e (resolve e input0) out
      else inplace_body e (resolve e input0) out)"
  have run: "migrate (e\<lparr>rglob := \<lambda>p. found\<rparr>) mig input0 output0 inplace w
      = for_each body found w" for found
    unfolding body_def using assms Inr by (rule migrate_tree)
  have stop: "body bad w1 = (Some (UnicodeDecodeError bad), w1)"
    if "read_text e w1 bad = Inl (UnicodeDecodeError bad)"
    using that by (simp add: body_def unreadable_stops)
  show ?thesis
    by (auto simp: run for_each_append stop)
qed


theorem C4_amended_witness:
  "migrate
      (example_env [Path True [ascii ''w'', ascii ''t'', ascii ''one.py''],
                    Path True [ascii ''w'', ascii ''t'', ascii ''bad.py''],
                    Path True [ascii ''w'', ascii ''t'', ascii ''two.py'']])
      Upgrade7to8 (Path True [ascii ''w'', ascii ''t'']) None True
      (example_world [(Path True [ascii ''w'', ascii ''t'', ascii ''one.py''], Utf8 (ascii ''x = 1'')),
                      (Path True [ascii ''w'', ascii ''t'', ascii ''bad.py''], Undecodable),
                      (Path True [ascii ''w'', ascii ''t'', ascii ''two.py''], Utf8 (ascii ''y = 2''))])
    = (Some (UnicodeDecodeError (Path True [ascii ''w'', ascii ''t'', ascii ''bad.py''])),
       snd (migrate (example_env [Path True [ascii ''w'', ascii ''t'', ascii ''one.py'']])
         Upgrade7to8 (Path True [ascii ''w'', ascii ''t'']) None True
         (example_world [(Path True [ascii ''w'', ascii ''t'', ascii ''one.py''], Utf8 (ascii ''x = 1'')),
                      (Path True [ascii ''w'', ascii ''t'', ascii ''bad.py''], Undecodable),
                      (Path True [ascii ''w'', ascii ''t'', ascii ''two.py''], Utf8 (ascii ''y = 2''))])))
   \<and> written (snd (migrate (example_env [Path True [ascii ''w'', ascii ''t'', ascii ''one.py'']])
         Upgrade7to8 (Path True [ascii ''w'', ascii ''t'']) None True
         (example_world [(Path True [ascii ''w'', ascii ''t'', ascii ''one.py''], Utf8 (ascii ''x = 1'')),
                      (Path True [ascii ''w'', ascii ''t'', ascii ''bad.py''], Undecodable),
                      (Path True [ascii ''w'', ascii ''t'', ascii ''two.py''], Utf8 (ascii ''y = 2''))])))
    = [(Path True [ascii ''w'', ascii ''t'', ascii ''one.py''], ascii ''dx = 1'')]
   \<and> migrate
      (example_env [Path True [ascii ''w'', ascii ''t'', ascii ''first.py''],
                    Path True [ascii ''w'', ascii ''t'', ascii ''bad.py'']])
      Upgrade7to8 (Path True [ascii ''w'', ascii ''t'']) None True
      (example_world [(Path True [ascii ''w'', ascii ''t'', ascii ''first.py''], Utf8 (ascii ''y = s[/a]'')),
                      (Path True [ascii ''w'', ascii ''t'', ascii ''bad.py''], Undecodable)])
    = (Some (MarkupError
         (ascii ''--- /w/t/first.py\<newline>+++ /w/t/first.py\<newline>-y = s[/a]\<newline>+dy = s[/a]'')),
       snd (migrate (example_env [Path True [ascii ''w'', ascii ''t'', ascii ''first.py'']])
         Upgrade7to8 (Path True [ascii ''w'', ascii ''t'']) None True
         (example_world [(Path True [ascii ''w'', ascii ''t'', ascii ''first.py''], Utf8 (ascii ''y = s[/a]'')),
                      (Path True [ascii ''w'', ascii ''t'', ascii ''bad.py''], Undecodable)])))
   \<and> written (snd (migrate (example_env [Path True [ascii ''w'', ascii ''t'', ascii ''first.py'']])
         Upgrade7to8 (Path True [ascii ''w'', ascii ''t'']) None True
         (example_world [(Path True [ascii ''w'', ascii ''t'', ascii ''first.py''], Utf8 (ascii ''y = s[/a]'')),
                      (Path True [ascii ''w'', ascii ''t'', ascii ''bad.py''], Undecodable)])))
    = [(Path True [ascii ''w'', ascii ''t'', ascii ''first.py''], ascii ''dy = s[/a]'')]"
proof -
  let ?one = "Path True [ascii ''w'', ascii ''t'', ascii ''one.py'']"
  let ?bad = "Path True [ascii ''w'', ascii ''t'', ascii ''bad.py'']"
  let ?two = "Path True [ascii ''w'', ascii ''t'', ascii ''two.py'']"
  let ?first = "Path True [ascii ''w'', ascii ''t'', ascii ''first.py'']"
  let ?t = "Path True [ascii ''w'', ascii ''t'']"
  let ?W = "example_world [(?one, Utf8 (ascii ''x = 1'')), (?bad, Undecodable),
      (?two, Utf8 (ascii ''y = 2''))]"
  let ?V = "example_world [(?first, Utf8 (ascii ''y = s[/a]'')), (?bad, Undecodable)]"
  let ?E = "example_env []"
  let ?err = "MarkupError
      (ascii ''--- /w/t/first.py\<newline>+++ /w/t/first.py\<newline>-y = s[/a]\<newline>+dy = s[/a]'')"
  have env: "example_env found = ?E\<lparr>rglob := \<lambda>p. found\<rparr>" for found
    by (simp add: example_env_def)
  let ?w1 = "snd (migrate (?E\<lparr>rglob := \<lambda>p. [?one]\<rparr>) Upgrade7to8 ?t None True ?W)"
  let ?v1 = "snd (migrate (?E\<lparr>rglob := \<lambda>p. [?first]\<rparr>) Upgrade7to8 ?t None True ?V)"
  have wr: "written ?w1 = [(?one, ascii ''dx = 1'')]"
    "written ?v1 = [(?first, ascii ''dy = s[/a]'')]"
    by (simp_all add: driver_eval rewrite_eval)
  have d: "is_dir ?E ?W (resolve ?E ?t)" "is_dir ?E ?V (resolve ?E ?t)"
    by (simp_all add: driver_eval ascii_def)
  have h1: "migrate (?E\<lparr>rglob := \<lambda>p. [?one]\<rparr>) Upgrade7to8 ?t None True ?W = (None, ?w1)"
    by (rule run_result) (simp add: driver_eval rewrite_eval)
  have h2: "read_text ?E ?w1 ?bad = Inl (UnicodeDecodeError ?bad)"
    by (simp add: driver_eval rewrite_eval)
  have h3: "migrate (?E\<lparr>rglob := \<lambda>p. [?first]\<rparr>) Upgrade7to8 ?t None True ?V = (Some ?err, ?v1)"
    by (rule run_result) (simp add: driver_eval rewrite_eval)
  from C4_amended [OF d(1), where before="[?one]" and mig=Upgrade7to8 and ?output0.0=None
      and inplace=True and ?w1.0="?w1" and bad="?bad" and after="[?two]"] h1 h2
  have a: "migrate (?E\<lparr>rglob := \<lambda>p. [?one, ?bad, ?two]\<rparr>) Upgrade7to8 ?t None True ?W
      = (Some (UnicodeDecodeError ?bad), ?w1)"
    by simp
  from C4_amended [OF d(2), where before="[?first]" and mig=Upgrade7to8 and ?output0.0=None
      and inplace=True and ?w1.0="?v1" and err="?err" and after="[?bad]"] h3
  have b: "migrate (?E\<lparr>rglob := \<lambda>p. [?first, ?bad]\<rparr>) Upgrade7to8 ?t None True ?V
      = (Some ?err, ?v1)"
    by simp
  from a b wr show ?thesis
    by (simp add: env [symmetric])
qed

text \<open>
  Claim C5 says that with \<^verbatim>\<open>--inplace\<close> a given output path is ignored, as the help texts
  of lines 145 and 153-154 do. The code looks at \<open>inplace\<close> only when no output is given
  (lines 176-179). Evaluated on the file \<^verbatim>\<open>/w/a.py\<close> with the output \<^verbatim>\<open>/w/b.py\<close> and
  \<^verbatim>\<open>--inplace\<close>: the one write goes to \<^verbatim>\<open>/w/b.py\<close>, whereas without an output argument it
  goes to \<^verbatim>\<open>/w/a.py\<close>.
\<close>

theorem C5_inplace_with_output:
  "written (snd (migrate
      \<lparr>unicode_alnum = ua, resolve = cwd_resolve, unified_diff = ud, rglob = rg, rich_raises = rr\<rparr>
      Upgrade7to8 (Path True [ascii ''w'', ascii ''a.py''])
      (Some (Path True [ascii ''w'', ascii ''b.py''])) True
      (example_world [(Path True [ascii ''w'', ascii ''a.py''], Utf8 (ascii ''center''))])))
    = [(Path True [ascii ''w'', ascii ''b.py''], ascii ''dcenter'')]
   \<and> written (snd (migrate
      \<lparr>unicode_alnum = ua, resolve = cwd_resolve, unified_diff = ud, rglob = rg, rich_raises = rr\<rparr>
      Upgrade7to8 (Path True [ascii ''w'', ascii ''a.py'']) None True
      (example_world [(Path True [ascii ''w'', ascii ''a.py''], Utf8 (ascii ''center''))])))
    = [(Path True [ascii ''w'', ascii ''a.py''], ascii ''dcenter'')]"
  by (simp add: driver_eval rewrite_eval)

text \<open>
  Claim C6 says that the output path is resolved before use and that the diff headers
  carry resolved paths. Line 180 drops the resolved path, and lines 224-225 label the
  diff with \<open>str(output)\<close>. Evaluated in the working directory \<^verbatim>\<open>/w\<close> on the input
  \<^verbatim>\<open>a.py\<close> and the output \<^verbatim>\<open>out.py\<close>: the source label is \<^verbatim>\<open>/w/a.py\<close>, the destination
  label is \<^verbatim>\<open>out.py\<close>, and the write goes to the path \<^verbatim>\<open>out.py\<close> as given. What is
  printed is the notice and the diff text, up to the first of the two on which
  \<open>rich.print\<close> raises.
\<close>

theorem C6_relative_output_label:
  "console (snd (migrate
      \<lparr>unicode_alnum = ua, resolve = cwd_resolve, unified_diff = ud, rglob = rg, rich_raises = rr\<rparr>
      Upgrade7to8 (Path False [ascii ''a.py'']) (Some (Path False [ascii ''out.py''])) False
      (example_world [(Path True [ascii ''w'', ascii ''a.py''], Utf8 (ascii ''x''))])))
    = (if rr (ascii ''Updated [bold violet]out.py[/]'') then []
       else if rr (join (ascii ''\<newline>'')
                     (ud [ascii ''x''] [ascii ''d'', ascii ''x''] (ascii ''/w/a.py'') (ascii ''out.py'')))
       then [ascii ''Updated [bold violet]out.py[/]'']
       else [ascii ''Updated [bold violet]out.py[/]'',
             join (ascii ''\<newline>'')
               (ud [ascii ''x''] [ascii ''d'', ascii ''x''] (ascii ''/w/a.py'') (ascii ''out.py''))])
   \<and> written (snd (migrate
      \<lparr>unicode_alnum = ua, resolve = cwd_resolve, unified_diff = ud, rglob = rg, rich_raises = rr\<rparr>
      Upgrade7to8 (Path False [ascii ''a.py'']) (Some (Path False [ascii ''out.py''])) False
      (example_world [(Path True [ascii ''w'', ascii ''a.py''], Utf8 (ascii ''x''))])))
    = [(Path False [ascii ''out.py''], ascii ''dx'')]"
  by (simp add: driver_eval rewrite_eval)

text \<open>
  Claim C7 says that the diff of a changed file is computed line by line. Lines 222-223
  hand the two texts to \<open>unified_diff\<close> without \<open>splitlines()\<close>. Evaluated on the file
  \<^verbatim>\<open>/w/a.py\<close> holding the two lines \<open>x\<close> and \<open>y\<close>, with the existing directory
  \<^verbatim>\<open>/w/t\<close> as output: \<open>unified_diff\<close> receives the characters of the two texts, the
  newline among them, and not their lines. What is printed is the notice and the diff
  text, up to the first of the two on which \<open>rich.print\<close> raises.
\<close>

theorem C7_diff_of_characters:
  "console (snd (migrate
      \<lparr>unicode_alnum = ua, resolve = cwd_resolve, unified_diff = ud, rglob = rg, rich_raises = rr\<rparr>
      Upgrade7to8 (Path True [ascii ''w'', ascii ''a.py'']) (Some (Path True [ascii ''w'', ascii ''t''])) False
      (example_world [(Path True [ascii ''w'', ascii ''a.py''], Utf8 (ascii ''x\<newline>y''))])))
    = (if rr (ascii ''Updated [bold violet]/w/t/a.py[/]'') then []
       else if rr (join (ascii ''\<newline>'')
                     (ud [ascii ''x'', ascii ''\<newline>'', ascii ''y'']
                         [ascii ''d'', ascii ''x'', ascii ''\<newline>'', ascii ''d'', ascii ''y'']
                         (ascii ''/w/a.py'') (ascii ''/w/t/a.py'')))
       then [ascii ''Updated [bold violet]/w/t/a.py[/]'']
       else [ascii ''Updated [bold violet]/w/t/a.py[/]'',
             join (ascii ''\<newline>'')
               (ud [ascii ''x'', ascii ''\<newline>'', ascii ''y'']
                   [ascii ''d'', ascii ''x'', ascii ''\<newline>'', ascii ''d'', ascii ''y'']
                   (ascii ''/w/a.py'') (ascii ''/w/t/a.py''))])
   \<and> splitlines (ascii ''x\<newline>y'') = [ascii ''x'', ascii ''y'']
   \<and> splitlines (ascii ''dx\<newline>dy'') = [ascii ''dx'', ascii ''dy'']"
  by (simp add: driver_eval rewrite_eval)


end
